theory Spec2Isabelle
  imports Main
begin

section \<open>Data model (src/types/index.ts)\<close>

text \<open>
  The types of \<^verbatim>\<open>src/types/index.ts\<close>. Interfaces are records, string-literal unions are
  datatypes, optional fields are options. JavaScript numbers that count things are
  \<^typ>\<open>int\<close> (a counter can be decremented below zero), dates are milliseconds as
  \<^typ>\<open>int\<close>. Identifiers handed out by \<^verbatim>\<open>uuidv4()\<close> are natural numbers drawn from a
  counter, so two calls never return the same identifier.
\<close>

datatype batch_status = Created | Processing | Completed | Failed | Cancelled

datatype file_status = FilePending | FileProcessing | FileCompleted | FileFailed

text \<open>One slot per provider: used for the three model names and for the three results.\<close>

record 'a per_provider =
  openai :: 'a
  claude :: 'a
  gemini :: 'a

text \<open>\<^verbatim>\<open>TranscriptAnalysis\<close>; the two fields of \<^verbatim>\<open>metadata\<close> are kept flat.\<close>

record transcript_analysis =
  model :: string
  filename :: string
  analysis :: string
  tokens :: "int option"
  processingTime :: "int option"
  timestamp :: int

text \<open>\<^verbatim>\<open>Express.Multer.File\<close>, the fields the code reads.\<close>

record multer_file =
  originalname :: string
  mimetype :: string
  path :: string

record file_progress =
  startTime :: int
  processingEnd :: "int option"
  totalDuration :: "int option"

record transcript_file =
  file_id :: nat
  originalFile :: multer_file
  content :: "string option"
  fstatus :: file_status
  progress :: file_progress
  results :: "transcript_analysis option per_provider"
  error :: "string option"
  retryCount :: int

record job_config =
  jobDescription :: string
  prompt :: string
  models :: "string per_provider"

record batch_timing =
  elapsedMs :: int
  estimatedCompletionMs :: "int option"

record batch_metrics =
  total :: int
  pending :: int
  processing :: int
  completed :: int
  failed :: int
  openaiComplete :: int
  claudeComplete :: int
  geminiComplete :: int
  timing :: batch_timing

record batch_job =
  batch_id :: nat
  status :: batch_status
  files :: "transcript_file list"
  jobConfig :: "job_config option"
  metrics :: batch_metrics
  createdAt :: int
  startedAt :: "int option"
  completedAt :: "int option"



record batch_progress =
  bp_batchId :: nat
  bp_status :: batch_status
  bp_metrics :: batch_metrics
  bp_processing :: "string list"

section \<open>Provider adapters (src/services/TranscriptProcessor.ts)\<close>

text \<open>
  A provider call is an external service. Its request is built by the adapter, its
  response is whatever the service answers: the three services are functions of the
  request in a record \<open>world\<close>, together with the clock readings of the segment in which
  the answers arrive (\<open>call_started\<close> is the adapter's first \<^verbatim>\<open>Date.now()\<close>, \<open>now\<close>
  the later readings). A rejected promise is \<open>Inl\<close> with the reason.
\<close>

record openai_params =
  oa_model :: string
  oa_messages :: "(string \<times> string) list"
  oa_max_completion_tokens :: "int option"
  oa_max_tokens :: "int option"

text \<open>A chat completion: the message content of each choice and \<^verbatim>\<open>usage?.total_tokens\<close>.\<close>

record openai_completion =
  oa_choices :: "string option list"
  oa_total_tokens :: "int option"

record anthropic_params =
  an_model :: string
  an_max_tokens :: int
  an_messages :: "(string \<times> string) list"

datatype content_block = TextBlock string | OtherBlock

record anthropic_usage =
  input_tokens :: int
  output_tokens :: int

record anthropic_message =
  an_content :: "content_block list"
  an_usage :: "anthropic_usage option"

record gemini_params =
  gm_model :: string
  gm_parts :: "string list"

record world =
  openai_api :: "openai_params \<Rightarrow> string + openai_completion"
  anthropic_api :: "anthropic_params \<Rightarrow> string + anthropic_message"
  gemini_api :: "gemini_params \<Rightarrow> string + string"
  call_started :: int
  now :: int

text \<open>An element of the array \<^verbatim>\<open>Promise.allSettled\<close> resolves to.\<close>

datatype settled = Fulfilled transcript_analysis | Rejected string

definition openai_maxTokens :: int where
  "openai_maxTokens = 4000"

definition anthropic_maxTokens :: int where
  "anthropic_maxTokens = 4000"

text \<open>\<^verbatim>\<open>String.prototype.includes\<close>.\<close>

fun str_includes :: "string \<Rightarrow> string \<Rightarrow> bool" where
  "str_includes [] sub = (sub = [])"
| "str_includes (c # cs) sub = (take (length sub) (c # cs) = sub \<or> str_includes cs sub)"

text \<open>A template literal renders a missing string as \<^verbatim>\<open>undefined\<close>.\<close>

definition render :: "string option \<Rightarrow> string" where
  "render c = (case c of None \<Rightarrow> ''undefined'' | Some s \<Rightarrow> s)"

definition analyze_header :: string where
  "analyze_header = ''Analyze this transcript:'' @ [CHR 0x0A, CHR 0x0A]"

definition nl2 :: string where
  "nl2 = [CHR 0x0A, CHR 0x0A]"

definition isNewerModel :: "string \<Rightarrow> bool" where
  "isNewerModel m =
     (str_includes m ''gpt-4o'' \<or> str_includes m ''gpt-5'' \<or> str_includes m ''o1'' \<or> str_includes m ''o3'')"

text \<open>The \<^verbatim>\<open>completionParams\<close> object of \<^verbatim>\<open>processWithOpenAI\<close>.\<close>

definition openai_request :: "string option \<Rightarrow> string \<Rightarrow> string \<Rightarrow> string \<Rightarrow> openai_params" where
  "openai_request content' jobDescription' prompt' model' =
     (let systemPrompt = prompt';
          completionParams = \<lparr> oa_model = model',
            oa_messages = [(''system'', systemPrompt),
                           (''user'', analyze_header @ render content')],
            oa_max_completion_tokens = None, oa_max_tokens = None \<rparr>
      in if isNewerModel model'
         then completionParams \<lparr> oa_max_completion_tokens := Some openai_maxTokens \<rparr>
         else completionParams \<lparr> oa_max_tokens := Some openai_maxTokens \<rparr>)"

text \<open>\<^verbatim>\<open>completion.choices[0]?.message?.content || "No analysis generated"\<close>.\<close>

definition openai_analysis :: "openai_completion \<Rightarrow> string" where
  "openai_analysis c =
     (case oa_choices c of
        [] \<Rightarrow> ''No analysis generated''
      | m # _ \<Rightarrow> (case m of None \<Rightarrow> ''No analysis generated''
                  | Some t \<Rightarrow> if t = [] then ''No analysis generated'' else t))"

definition processWithOpenAI ::
  "world \<Rightarrow> string option \<Rightarrow> string \<Rightarrow> string \<Rightarrow> string \<Rightarrow> string \<Rightarrow> settled" where
  "processWithOpenAI w content' jobDescription' prompt' model' filename' =
     (case openai_api w (openai_request content' jobDescription' prompt' model') of
        Inl reason \<Rightarrow> Rejected reason
      | Inr completion \<Rightarrow>
          Fulfilled \<lparr> model = model', filename = filename',
            analysis = openai_analysis completion,
            tokens = oa_total_tokens completion,
            processingTime = Some (now w - call_started w),
            timestamp = now w \<rparr>)"

text \<open>The argument of \<^verbatim>\<open>anthropic.messages.create\<close> in \<^verbatim>\<open>processWithClaude\<close>.\<close>

definition claude_request :: "string option \<Rightarrow> string \<Rightarrow> string \<Rightarrow> string \<Rightarrow> anthropic_params" where
  "claude_request content' jobDescription' prompt' model' =
     (let systemPrompt = prompt'
      in \<lparr> an_model = model', an_max_tokens = anthropic_maxTokens,
           an_messages = [(''user'', systemPrompt @ nl2 @ analyze_header @ render content')] \<rparr>)"

definition claude_analysis :: "anthropic_message \<Rightarrow> string" where
  "claude_analysis m =
     (case an_content m of
        TextBlock t # _ \<Rightarrow> t
      | _ \<Rightarrow> ''No analysis generated'')"

text \<open>
  \<^verbatim>\<open>usage?.input_tokens ? input_tokens + (usage?.output_tokens || 0) : undefined\<close>:
  an input count of 0 is falsy.
\<close>

definition claude_tokens :: "anthropic_message \<Rightarrow> int option" where
  "claude_tokens m =
     (case an_usage m of
        None \<Rightarrow> None
      | Some u \<Rightarrow> if input_tokens u \<noteq> 0 then Some (input_tokens u + output_tokens u) else None)"

definition processWithClaude ::
  "world \<Rightarrow> string option \<Rightarrow> string \<Rightarrow> string \<Rightarrow> string \<Rightarrow> string \<Rightarrow> settled" where
  "processWithClaude w content' jobDescription' prompt' model' filename' =
     (case anthropic_api w (claude_request content' jobDescription' prompt' model') of
        Inl reason \<Rightarrow> Rejected reason
      | Inr message \<Rightarrow>
          Fulfilled \<lparr> model = model', filename = filename',
            analysis = claude_analysis message,
            tokens = claude_tokens message,
            processingTime = Some (now w - call_started w),
            timestamp = now w \<rparr>)"

text \<open>The model selection and the argument of \<^verbatim>\<open>generateContent\<close> in \<^verbatim>\<open>processWithGemini\<close>.\<close>

definition gemini_request :: "string option \<Rightarrow> string \<Rightarrow> string \<Rightarrow> string \<Rightarrow> gemini_params" where
  "gemini_request content' jobDescription' prompt' model' =
     (let systemPrompt = prompt'
      in \<lparr> gm_model = model',
           gm_parts = [systemPrompt, nl2 @ analyze_header @ render content'] \<rparr>)"

definition processWithGemini ::
  "world \<Rightarrow> string option \<Rightarrow> string \<Rightarrow> string \<Rightarrow> string \<Rightarrow> string \<Rightarrow> settled" where
  "processWithGemini w content' jobDescription' prompt' model' filename' =
     (case gemini_api w (gemini_request content' jobDescription' prompt' model') of
        Inl reason \<Rightarrow> Rejected reason
      | Inr text' \<Rightarrow>
          Fulfilled \<lparr> model = model', filename = filename',
            analysis = text',
            tokens = None,
            processingTime = Some (now w - call_started w),
            timestamp = now w \<rparr>)"


text \<open>
  The three calls of \<^verbatim>\<open>processTranscript\<close>, in the order of the array given to
  \<^verbatim>\<open>Promise.allSettled\<close>.
\<close>

definition call_providers :: "world \<Rightarrow> transcript_file \<Rightarrow> job_config \<Rightarrow> settled \<times> settled \<times> settled" where
  "call_providers w file cfg =
     (processWithOpenAI w (content file) (jobDescription cfg) (prompt cfg)
        (openai (models cfg)) (originalname (originalFile file)),
      processWithClaude w (content file) (jobDescription cfg) (prompt cfg)
        (claude (models cfg)) (originalname (originalFile file)),
      processWithGemini w (content file) (jobDescription cfg) (prompt cfg)
        (gemini (models cfg)) (originalname (originalFile file)))"

section \<open>The batch tracker (class TranscriptProcessor)\<close>

text \<open>
  \<^verbatim>\<open>this.jobs\<close> is a map from batch ids to \<^verbatim>\<open>BatchJob\<close> objects, and a running
  \<^verbatim>\<open>startProcessing\<close> keeps its own reference to the object it started on, also after
  \<^verbatim>\<open>deleteBatch\<close> has removed that object from the map. The state therefore has a
  \<open>store\<close> of all batch objects, addressed by their batch id (unique, from \<^verbatim>\<open>uuidv4()\<close>),
  and the set \<open>jobs\<close> of the ids that are keys of the map. \<open>next_uuid\<close> is the counter
  behind \<^verbatim>\<open>uuidv4()\<close>. A \<^verbatim>\<open>TranscriptFile\<close> object is referred to by its batch and its
  index in \<^verbatim>\<open>batch.files\<close>.
\<close>

record processor =
  store :: "nat \<rightharpoonup> batch_job"
  jobs :: "nat set"
  next_uuid :: nat

datatype error = NotFound nat | ConfigMissing | ReadError

definition new_processor :: processor where
  "new_processor = \<lparr> store = Map.empty, jobs = {}, next_uuid = 0 \<rparr>"

text \<open>\<^verbatim>\<open>this.jobs.get(batchId)\<close>.\<close>

definition jobs_get :: "processor \<Rightarrow> nat \<Rightarrow> batch_job option" where
  "jobs_get p batchId = (if batchId \<in> jobs p then store p batchId else None)"

text \<open>A mutation of the batch object with id \<open>a\<close>, of one of its files, of its metrics.\<close>

definition update_batch :: "nat \<Rightarrow> (batch_job \<Rightarrow> batch_job) \<Rightarrow> processor \<Rightarrow> processor" where
  "update_batch a f p = p \<lparr> store := (store p)(a := map_option f (store p a)) \<rparr>"

definition with_file :: "nat \<Rightarrow> (transcript_file \<Rightarrow> transcript_file) \<Rightarrow> batch_job \<Rightarrow> batch_job" where
  "with_file i f b = b \<lparr> files := (files b)[i := f (files b ! i)] \<rparr>"

definition with_metrics :: "(batch_metrics \<Rightarrow> batch_metrics) \<Rightarrow> batch_job \<Rightarrow> batch_job" where
  "with_metrics g b = b \<lparr> metrics := g (metrics b) \<rparr>"

subsection \<open>createBatch\<close>

text \<open>
  The file system is a function from paths to contents, \<open>None\<close> where
  \<^verbatim>\<open>fs.promises.readFile\<close> rejects; then \<^verbatim>\<open>Promise.all\<close> rejects and nothing is registered.
\<close>

definition new_file :: "nat \<Rightarrow> int \<Rightarrow> multer_file \<Rightarrow> string \<Rightarrow> transcript_file" where
  "new_file fid t file text' =
     \<lparr> file_id = fid, originalFile = file, content = Some text', fstatus = FilePending,
       progress = \<lparr> startTime = t, processingEnd = None, totalDuration = None \<rparr>,
       results = \<lparr> openai = None, claude = None, gemini = None \<rparr>,
       error = None, retryCount = 0 \<rparr>"

definition new_batch :: "nat \<Rightarrow> int \<Rightarrow> transcript_file list \<Rightarrow> job_config \<Rightarrow> batch_job" where
  "new_batch batchId t transcriptFiles cfg =
     \<lparr> batch_id = batchId, status = Created, files = transcriptFiles, jobConfig = Some cfg,
       metrics = \<lparr> total = int (length transcriptFiles), pending = int (length transcriptFiles),
         processing = 0, completed = 0, failed = 0,
         openaiComplete = 0, claudeComplete = 0, geminiComplete = 0,
         timing = \<lparr> elapsedMs = 0, estimatedCompletionMs = None \<rparr> \<rparr>,
       createdAt = t, startedAt = None, completedAt = None \<rparr>"

definition createBatch ::
  "(string \<Rightarrow> string option) \<Rightarrow> multer_file list \<Rightarrow> job_config \<Rightarrow> int \<Rightarrow> processor
     \<Rightarrow> (error + nat) \<times> processor" where
  "createBatch fs fls cfg t p =
     (let batchId = next_uuid p
      in case those (map (\<lambda>file. fs (path file)) fls) of
           None \<Rightarrow> (Inl ReadError, p \<lparr> next_uuid := Suc batchId \<rparr>)
         | Some texts \<Rightarrow>
             (let transcriptFiles =
                    map (\<lambda>(k, file, text'). new_file (Suc batchId + k) t file text')
                      (zip [0 ..< length fls] (zip fls texts));
                  batch = new_batch batchId t transcriptFiles cfg
              in (Inr batchId,
                  p \<lparr> store := (store p)(batchId \<mapsto> batch),
                      jobs := insert batchId (jobs p),
                      next_uuid := Suc batchId + length fls \<rparr>)))"

subsection \<open>processTranscript\<close>

text \<open>
  \<^verbatim>\<open>processTranscript\<close> runs in two segments, separated by its only \<^verbatim>\<open>await\<close>.
  The first looks the batch up, returns at once when the batch is not registered or has
  no job configuration (\<open>None\<close>), and otherwise marks the file as processing, moves one
  unit from \<open>pending\<close> to \<open>processing\<close> and issues the three calls, for which it has read
  the file and the configuration.
\<close>

definition enter_file :: "nat \<Rightarrow> batch_job \<Rightarrow> batch_job" where
  "enter_file i =
     with_metrics (\<lambda>m. m \<lparr> pending := pending m - 1 \<rparr>) \<circ>
     with_metrics (\<lambda>m. m \<lparr> processing := processing m + 1 \<rparr>) \<circ>
     with_file i (\<lambda>f. f \<lparr> fstatus := FileProcessing \<rparr>)"

definition processTranscript_begin ::
  "nat \<Rightarrow> nat \<Rightarrow> processor \<Rightarrow> (transcript_file \<times> job_config \<times> processor) option" where
  "processTranscript_begin batchId i p =
     (case jobs_get p batchId of
        None \<Rightarrow> None
      | Some batch \<Rightarrow>
          (case jobConfig batch of
             None \<Rightarrow> None
           | Some cfg \<Rightarrow>
               Some (files batch ! i, cfg, update_batch batchId (enter_file i) p)))"

text \<open>The handling of one settled call: store the result and count it, or only log.\<close>

definition handle_openai :: "nat \<Rightarrow> settled \<Rightarrow> batch_job \<Rightarrow> batch_job" where
  "handle_openai i r b =
     (case r of
        Fulfilled v \<Rightarrow>
          with_metrics (\<lambda>m. m \<lparr> openaiComplete := openaiComplete m + 1 \<rparr>)
            (with_file i (\<lambda>f. f \<lparr> results := (results f) \<lparr> openai := Some v \<rparr> \<rparr>) b)
      | Rejected reason \<Rightarrow> b)"

definition handle_claude :: "nat \<Rightarrow> settled \<Rightarrow> batch_job \<Rightarrow> batch_job" where
  "handle_claude i r b =
     (case r of
        Fulfilled v \<Rightarrow>
          with_metrics (\<lambda>m. m \<lparr> claudeComplete := claudeComplete m + 1 \<rparr>)
            (with_file i (\<lambda>f. f \<lparr> results := (results f) \<lparr> claude := Some v \<rparr> \<rparr>) b)
      | Rejected reason \<Rightarrow> b)"

definition handle_gemini :: "nat \<Rightarrow> settled \<Rightarrow> batch_job \<Rightarrow> batch_job" where
  "handle_gemini i r b =
     (case r of
        Fulfilled v \<Rightarrow>
          with_metrics (\<lambda>m. m \<lparr> geminiComplete := geminiComplete m + 1 \<rparr>)
            (with_file i (\<lambda>f. f \<lparr> results := (results f) \<lparr> gemini := Some v \<rparr> \<rparr>) b)
      | Rejected reason \<Rightarrow> b)"

fun is_fulfilled :: "settled \<Rightarrow> bool" where
  "is_fulfilled (Fulfilled v) = True"
| "is_fulfilled (Rejected reason) = False"

definition successCount :: "settled \<times> settled \<times> settled \<Rightarrow> nat" where
  "successCount rs = (case rs of (r0, r1, r2) \<Rightarrow> length (filter is_fulfilled [r0, r1, r2]))"

definition all_failed_message :: string where
  "all_failed_message = ''All models failed to process the transcript''"

definition overall_status :: "nat \<Rightarrow> settled \<times> settled \<times> settled \<Rightarrow> batch_job \<Rightarrow> batch_job" where
  "overall_status i rs b =
     (if successCount rs > 0
      then with_metrics (\<lambda>m. m \<lparr> completed := completed m + 1 \<rparr>)
             (with_file i (\<lambda>f. f \<lparr> fstatus := FileCompleted \<rparr>) b)
      else with_metrics (\<lambda>m. m \<lparr> failed := failed m + 1 \<rparr>)
             (with_file i (\<lambda>f. f \<lparr> fstatus := FileFailed, error := Some all_failed_message \<rparr>) b))"

definition record_end :: "nat \<Rightarrow> int \<Rightarrow> batch_job \<Rightarrow> batch_job" where
  "record_end i t b =
     with_metrics (\<lambda>m. m \<lparr> processing := processing m - 1 \<rparr>)
       (with_file i (\<lambda>f. f \<lparr> progress := (progress f)
          \<lparr> processingEnd := Some t, totalDuration := Some (t - startTime (progress f)) \<rparr> \<rparr>) b)"

text \<open>
  The second segment runs when all three calls have settled. It works on the batch and
  file objects the first segment held, whether or not the batch is still registered.
\<close>

definition settle_file :: "settled \<times> settled \<times> settled \<Rightarrow> int \<Rightarrow> nat \<Rightarrow> batch_job \<Rightarrow> batch_job" where
  "settle_file rs t i =
     (case rs of (r0, r1, r2) \<Rightarrow>
        record_end i t \<circ> overall_status i rs \<circ>
        handle_gemini i r2 \<circ> handle_claude i r1 \<circ> handle_openai i r0)"

definition processTranscript_end ::
  "settled \<times> settled \<times> settled \<Rightarrow> int \<Rightarrow> nat \<Rightarrow> nat \<Rightarrow> processor \<Rightarrow> processor" where
  "processTranscript_end rs t batchId i p = update_batch batchId (settle_file rs t i) p"

text \<open>The whole of \<^verbatim>\<open>processTranscript\<close>, when nothing else runs during its \<^verbatim>\<open>await\<close>.\<close>

definition processTranscript :: "world \<Rightarrow> nat \<Rightarrow> nat \<Rightarrow> processor \<Rightarrow> processor" where
  "processTranscript w batchId i p =
     (case processTranscript_begin batchId i p of
        None \<Rightarrow> p
      | Some (file, cfg, p1) \<Rightarrow>
          processTranscript_end (call_providers w file cfg) (now w) batchId i p1)"

subsection \<open>startProcessing\<close>

text \<open>
  The loop over \<^verbatim>\<open>batch.files\<close>, from index \<open>i\<close> with \<open>n\<close> files left; \<open>ws i\<close> is the world
  in which the calls for file \<open>i\<close> settle. No statement in the body of the \<^verbatim>\<open>try\<close> throws
  (\<^verbatim>\<open>Promise.allSettled\<close> never rejects), so the \<^verbatim>\<open>catch\<close> branch has no path into it.
\<close>

fun files_loop :: "(nat \<Rightarrow> world) \<Rightarrow> nat \<Rightarrow> nat \<Rightarrow> nat \<Rightarrow> processor \<Rightarrow> processor" where
  "files_loop ws batchId i 0 p = p"
| "files_loop ws batchId i (Suc n) p =
     files_loop ws batchId (Suc i) n (processTranscript (ws i) batchId i p)"

definition mark_processing :: "int \<Rightarrow> batch_job \<Rightarrow> batch_job" where
  "mark_processing t b = b \<lparr> status := Processing, startedAt := Some t \<rparr>"

definition mark_completed :: "int \<Rightarrow> batch_job \<Rightarrow> batch_job" where
  "mark_completed t b = b \<lparr> status := Completed, completedAt := Some t \<rparr>"

text \<open>
  The first statements of \<^verbatim>\<open>startProcessing\<close>: the two guards, then the status and the
  start timestamp. An error is thrown before anything is written.
\<close>

definition startProcessing_begin :: "int \<Rightarrow> nat \<Rightarrow> processor \<Rightarrow> error + processor" where
  "startProcessing_begin t0 batchId p =
     (case jobs_get p batchId of
        None \<Rightarrow> Inl (NotFound batchId)
      | Some batch \<Rightarrow>
          (case jobConfig batch of
             None \<Rightarrow> Inl ConfigMissing
           | Some cfg \<Rightarrow> Inr (update_batch batchId (mark_processing t0) p)))"

text \<open>\<^verbatim>\<open>batch.files\<close>, read through the reference \<^verbatim>\<open>startProcessing\<close> holds.\<close>

definition batch_files :: "processor \<Rightarrow> nat \<Rightarrow> transcript_file list" where
  "batch_files p a = (case store p a of None \<Rightarrow> [] | Some batch \<Rightarrow> files batch)"

text \<open>
  \<^verbatim>\<open>startProcessing\<close> run from its first statement to its last with no other operation
  in between. The result is the error thrown, if any, and the state left behind.
\<close>

definition startProcessing ::
  "(nat \<Rightarrow> world) \<Rightarrow> int \<Rightarrow> nat \<Rightarrow> processor \<Rightarrow> error option \<times> processor" where
  "startProcessing ws t0 batchId p =
     (case startProcessing_begin t0 batchId p of
        Inl e \<Rightarrow> (Some e, p)
      | Inr p1 \<Rightarrow>
          (let n = length (batch_files p1 batchId);
               p2 = files_loop ws batchId 0 n p1;
               t1 = (if n = 0 then t0 else now (ws (n - 1)))
           in (None, update_batch batchId (mark_completed t1) p2)))"

subsection \<open>Queries, cancelBatch, deleteBatch\<close>

definition getBatchProgress :: "processor \<Rightarrow> nat \<Rightarrow> batch_progress option" where
  "getBatchProgress p batchId =
     (case jobs_get p batchId of
        None \<Rightarrow> None
      | Some batch \<Rightarrow>
          Some \<lparr> bp_batchId = batch_id batch, bp_status = status batch,
                 bp_metrics = metrics batch,
                 bp_processing = map (\<lambda>f. originalname (originalFile f))
                   (filter (\<lambda>f. fstatus f = FileProcessing) (files batch)) \<rparr>)"


definition cancelBatch :: "nat \<Rightarrow> processor \<Rightarrow> bool \<times> processor" where
  "cancelBatch batchId p =
     (case jobs_get p batchId of
        None \<Rightarrow> (False, p)
      | Some batch \<Rightarrow>
          if status batch = Completed \<or> status batch = Cancelled then (False, p)
          else (True, update_batch batchId (\<lambda>b. b \<lparr> status := Cancelled \<rparr>) p))"

definition deleteBatch :: "nat \<Rightarrow> processor \<Rightarrow> bool \<times> processor" where
  "deleteBatch batchId p =
     (case jobs_get p batchId of
        None \<Rightarrow> (False, p)
      | Some batch \<Rightarrow>
          if status batch = Processing then (False, p)
          else (True, p \<lparr> jobs := jobs p - {batchId} \<rparr>))"


subsection \<open>Notions used in the statements and in the loop invariant\<close>

text \<open>At least one of the three calls for a file is fulfilled in world \<open>w\<close>.\<close>

definition provider_succeeded :: "world \<Rightarrow> job_config \<Rightarrow> transcript_file \<Rightarrow> bool" where
  "provider_succeeded w cfg file =
     (case call_providers w file cfg of
        (r0, r1, r2) \<Rightarrow> is_fulfilled r0 \<or> is_fulfilled r1 \<or> is_fulfilled r2)"


text \<open>
  What the loop has done to the batch object when it has handled the \<open>n\<close> files from
  index \<open>i\<close> on, file \<open>k\<close> settling in world \<open>ws k\<close>: \<open>b\<close> is the object before, \<open>b'\<close> after.
\<close>

definition loop_result ::
  "(nat \<Rightarrow> world) \<Rightarrow> job_config \<Rightarrow> nat \<Rightarrow> nat \<Rightarrow> batch_job \<Rightarrow> batch_job \<Rightarrow> bool" where
  "loop_result ws cfg i n b b' \<longleftrightarrow>
     jobConfig b' = Some cfg \<and> status b' = status b \<and>
     length (files b') = length (files b) \<and>
     (\<forall>k. k < i \<or> i + n \<le> k \<longrightarrow> files b' ! k = files b ! k) \<and>
     (\<forall>k. i \<le> k \<and> k < i + n \<and> k < length (files b) \<longrightarrow>
        fstatus (files b' ! k) =
          (if provider_succeeded (ws k) cfg (files b ! k) then FileCompleted else FileFailed)) \<and>
     total (metrics b') = total (metrics b) \<and>
     pending (metrics b') = pending (metrics b) - int n \<and>
     processing (metrics b') = processing (metrics b) \<and>
     completed (metrics b') = completed (metrics b) +
       int (length (filter (\<lambda>k. provider_succeeded (ws k) cfg (files b ! k)) [i ..< i + n])) \<and>
     failed (metrics b') = failed (metrics b) +
       int (length (filter (\<lambda>k. \<not> provider_succeeded (ws k) cfg (files b ! k)) [i ..< i + n])) \<and>
     openaiComplete (metrics b') = openaiComplete (metrics b) +
       int (length (filter (\<lambda>k. is_fulfilled (fst (call_providers (ws k) (files b ! k) cfg)))
         [i ..< i + n])) \<and>
     claudeComplete (metrics b') = claudeComplete (metrics b) +
       int (length (filter (\<lambda>k. is_fulfilled (fst (snd (call_providers (ws k) (files b ! k) cfg))))
         [i ..< i + n])) \<and>
     geminiComplete (metrics b') = geminiComplete (metrics b) +
       int (length (filter (\<lambda>k. is_fulfilled (snd (snd (call_providers (ws k) (files b ! k) cfg))))
         [i ..< i + n]))"


section \<open>Interleaving\<close>

text \<open>
  Node runs one segment of code at a time, from one \<^verbatim>\<open>await\<close> to the next. A running
  \<^verbatim>\<open>startProcessing\<close> is suspended either in \<^verbatim>\<open>Promise.allSettled\<close> for file \<open>i\<close>
  (it holds the file and the configuration it issued the calls with) or in the two-second
  delay after file \<open>i\<close>, or it has returned. Between two of its segments any other
  operation of the tracker may run.
\<close>

datatype phase = AwaitProviders nat transcript_file job_config | Sleeping nat | Finished

record run =
  run_batch :: nat
  run_phase :: phase

record system =
  tracker :: processor
  runs :: "run list"

definition new_system :: system where
  "new_system = \<lparr> tracker = new_processor, runs = [] \<rparr>"

text \<open>
  The code after \<^verbatim>\<open>await this.processTranscript(batchId, file)\<close> for index \<open>i\<close>: the
  delay when another file follows, the completion of the batch otherwise.
\<close>

definition loop_after :: "int \<Rightarrow> nat \<Rightarrow> nat \<Rightarrow> processor \<Rightarrow> phase \<times> processor" where
  "loop_after t a i p =
     (if int i < int (length (batch_files p a)) - 1 then (Sleeping i, p)
      else (Finished, update_batch a (mark_completed t) p))"

text \<open>The loop head at index \<open>i\<close>, up to the next suspension.\<close>

definition loop_at :: "int \<Rightarrow> nat \<Rightarrow> nat \<Rightarrow> processor \<Rightarrow> phase \<times> processor" where
  "loop_at t a i p =
     (if i < length (batch_files p a)
      then (case processTranscript_begin a i p of
              None \<Rightarrow> loop_after t a i p
            | Some (file, cfg, p1) \<Rightarrow> (AwaitProviders i file cfg, p1))
      else (Finished, update_batch a (mark_completed t) p))"

datatype event =
    Create "string \<Rightarrow> string option" "multer_file list" job_config int
  | Start nat int
  | Settle nat world
  | Timer nat int
  | Cancel nat
  | Delete nat

text \<open>
  One segment. \<open>Start\<close> is a call of \<^verbatim>\<open>startProcessing\<close>, which begins a new run unless
  it throws; \<open>Settle k w\<close> resumes run \<open>k\<close> when its three calls have settled in world \<open>w\<close>;
  \<open>Timer k t\<close> resumes run \<open>k\<close> when its delay is over. An event for a run that is not
  waiting for it does nothing.
\<close>

fun apply_event :: "event \<Rightarrow> system \<Rightarrow> system" where
  "apply_event (Create fs fls cfg t) s =
     s \<lparr> tracker := snd (createBatch fs fls cfg t (tracker s)) \<rparr>"
| "apply_event (Start batchId t) s =
     (case startProcessing_begin t batchId (tracker s) of
        Inl e \<Rightarrow> s
      | Inr p1 \<Rightarrow>
          (case loop_at t batchId 0 p1 of
             (ph, p2) \<Rightarrow>
               \<lparr> tracker = p2, runs = runs s @ [\<lparr> run_batch = batchId, run_phase = ph \<rparr>] \<rparr>))"
| "apply_event (Settle k w) s =
     (if k < length (runs s)
      then (case run_phase (runs s ! k) of
              AwaitProviders i file cfg \<Rightarrow>
                (let a = run_batch (runs s ! k);
                     p1 = processTranscript_end (call_providers w file cfg) (now w) a i (tracker s)
                 in case loop_after (now w) a i p1 of
                      (ph, p2) \<Rightarrow>
                        \<lparr> tracker = p2,
                          runs = (runs s)[k := \<lparr> run_batch = a, run_phase = ph \<rparr>] \<rparr>)
            | Sleeping i \<Rightarrow> s
            | Finished \<Rightarrow> s)
      else s)"
| "apply_event (Timer k t) s =
     (if k < length (runs s)
      then (case run_phase (runs s ! k) of
              Sleeping i \<Rightarrow>
                (let a = run_batch (runs s ! k)
                 in case loop_at t a (Suc i) (tracker s) of
                      (ph, p2) \<Rightarrow>
                        \<lparr> tracker = p2,
                          runs = (runs s)[k := \<lparr> run_batch = a, run_phase = ph \<rparr>] \<rparr>)
            | AwaitProviders i file cfg \<Rightarrow> s
            | Finished \<Rightarrow> s)
      else s)"
| "apply_event (Cancel batchId) s = s \<lparr> tracker := snd (cancelBatch batchId (tracker s)) \<rparr>"
| "apply_event (Delete batchId) s = s \<lparr> tracker := snd (deleteBatch batchId (tracker s)) \<rparr>"

fun run_events :: "event list \<Rightarrow> system \<Rightarrow> system" where
  "run_events [] s = s"
| "run_events (e # es) s = run_events es (apply_event e s)"

text \<open>
  The segments of one run \<open>k\<close> that nothing interrupts, from the settlement of file \<open>i\<close>
  with \<open>n\<close> files left.
\<close>

fun schedule :: "(nat \<Rightarrow> world) \<Rightarrow> nat \<Rightarrow> nat \<Rightarrow> nat \<Rightarrow> event list" where
  "schedule ws k i 0 = []"
| "schedule ws k i (Suc n) =
     Settle k (ws i) # (if n = 0 then [] else Timer k (now (ws i)) # schedule ws k (Suc i) n)"

text \<open>The runs started on the batch object \<open>a\<close>, and the status of that object.\<close>

definition runs_on :: "system \<Rightarrow> nat \<Rightarrow> run list" where
  "runs_on s a = filter (\<lambda>r. run_batch r = a) (runs s)"

definition status_of :: "system \<Rightarrow> nat \<Rightarrow> batch_status option" where
  "status_of s a = map_option status (store (tracker s) a)"

definition metrics_of :: "system \<Rightarrow> nat \<Rightarrow> batch_metrics option" where
  "metrics_of s a = map_option metrics (store (tracker s) a)"

section \<open>Invariants of the interleaved system\<close>

text \<open>
  The mutations that a segment applies to a batch object, and their compositions. Every
  segment of every operation changes each existing batch object by such a step.
\<close>

inductive obj_step :: "batch_job \<Rightarrow> batch_job \<Rightarrow> bool" where
  same: "obj_step b b"
| enter: "obj_step b (enter_file i b)"
| settle: "obj_step b (settle_file rs t i b)"
| processing: "obj_step b (mark_processing t b)"
| completed: "obj_step b (mark_completed t b)"
| cancelled: "obj_step b (b \<lparr> status := Cancelled \<rparr>)"
| seq: "obj_step b b' \<Longrightarrow> obj_step b' b'' \<Longrightarrow> obj_step b b''"

text \<open>The counters of a batch add up to its total.\<close>

definition balanced :: "batch_job \<Rightarrow> bool" where
  "balanced b \<longleftrightarrow>
     pending (metrics b) + processing (metrics b) + completed (metrics b) + failed (metrics b)
       = total (metrics b)"

text \<open>No provider counter exceeds the \<open>completed\<close> counter, and no file counter is negative.\<close>

definition counted :: "batch_job \<Rightarrow> bool" where
  "counted b \<longleftrightarrow>
     openaiComplete (metrics b) \<le> completed (metrics b) \<and>
     claudeComplete (metrics b) \<le> completed (metrics b) \<and>
     geminiComplete (metrics b) \<le> completed (metrics b) \<and>
     0 \<le> failed (metrics b) \<and> 0 \<le> completed (metrics b)"

text \<open>
  One tracker state follows another: same identifier counter, no new registration, and
  every object changed by an object step.
\<close>

definition tracker_step :: "processor \<Rightarrow> processor \<Rightarrow> bool" where
  "tracker_step p p' \<longleftrightarrow>
     next_uuid p' = next_uuid p \<and> jobs p' \<subseteq> jobs p \<and>
     (\<forall>a. store p a = None \<longrightarrow> store p' a = None) \<and>
     (\<forall>a b. store p a = Some b \<longrightarrow> (\<exists>b'. store p' a = Some b' \<and> obj_step b b'))"

text \<open>Run \<open>k\<close> is waiting for its calls, or for its timer.\<close>

definition settle_enabled :: "system \<Rightarrow> nat \<Rightarrow> nat \<Rightarrow> transcript_file \<Rightarrow> job_config \<Rightarrow> bool" where
  "settle_enabled s k i file cfg \<longleftrightarrow>
     k < length (runs s) \<and> run_phase (runs s ! k) = AwaitProviders i file cfg"

definition timer_enabled :: "system \<Rightarrow> nat \<Rightarrow> nat \<Rightarrow> bool" where
  "timer_enabled s k i \<longleftrightarrow> k < length (runs s) \<and> run_phase (runs s ! k) = Sleeping i"

text \<open>
  A phase is within the \<open>n\<close> files of its batch; \<open>steps n ph\<close> is the number of files a
  run in phase \<open>ph\<close> has gone past, counting the file it is waiting for only once it has
  settled.
\<close>

fun phase_ok :: "nat \<Rightarrow> phase \<Rightarrow> bool" where
  "phase_ok n (AwaitProviders i fl cfg) = (i < n)"
| "phase_ok n (Sleeping i) = (Suc i < n)"
| "phase_ok n Finished = True"

fun steps :: "nat \<Rightarrow> phase \<Rightarrow> nat" where
  "steps n (AwaitProviders i fl cfg) = i"
| "steps n (Sleeping i) = Suc i"
| "steps n Finished = n"

text \<open>
  The number of \<^verbatim>\<open>startProcessing\<close> calls that have passed the two guards on batch \<open>a\<close>,
  and the number of files these runs have gone past.
\<close>

definition started :: "system \<Rightarrow> nat \<Rightarrow> nat" where
  "started s a = length (runs_on s a)"

definition handled :: "system \<Rightarrow> nat \<Rightarrow> nat" where
  "handled s a =
     sum_list (map (\<lambda>r. if run_batch r = a
                          then steps (length (batch_files (tracker s) a)) (run_phase r) else 0)
                (runs s))"

text \<open>
  The end of a segment of the loop at index \<open>i\<close>: it has entered file \<open>i\<close> and waits for
  its calls, or it sleeps after file \<open>i\<close>, or it has completed the batch.
\<close>

definition tail_ok :: "int \<Rightarrow> nat \<Rightarrow> nat \<Rightarrow> (batch_job \<Rightarrow> batch_job) \<Rightarrow> phase \<Rightarrow> bool" where
  "tail_ok t i n g ph \<longleftrightarrow>
     (\<exists>fl cfg. g = enter_file i \<and> ph = AwaitProviders i fl cfg \<and> i < n) \<or>
     (g = id \<and> ph = Sleeping i \<and> Suc i < n) \<or>
     (g = mark_completed t \<and> ph = Finished)"

text \<open>
  The invariant: identifiers in use are below the counter; every run refers to an
  existing batch and is within its files; every batch is balanced and counted, with
  \<open>total\<close> the number of its files; \<open>completed + failed\<close> is at most the number of files
  its runs have gone past; a batch that is \<open>processing\<close> or \<open>completed\<close> has been started,
  and if it has been started once and is \<open>completed\<close>, that run has returned.
\<close>

definition store_ok :: "processor \<Rightarrow> bool" where
  "store_ok p \<longleftrightarrow> (\<forall>a b. store p a = Some b \<longrightarrow> a < next_uuid p)"

definition runs_ok :: "system \<Rightarrow> bool" where
  "runs_ok s \<longleftrightarrow>
     (\<forall>k < length (runs s). \<exists>b. store (tracker s) (run_batch (runs s ! k)) = Some b \<and>
        phase_ok (length (files b)) (run_phase (runs s ! k)))"

definition objs_ok :: "processor \<Rightarrow> bool" where
  "objs_ok p \<longleftrightarrow>
     (\<forall>a b. store p a = Some b \<longrightarrow>
        balanced b \<and> counted b \<and> total (metrics b) = int (length (files b)))"

definition work_ok :: "system \<Rightarrow> bool" where
  "work_ok s \<longleftrightarrow>
     (\<forall>a b. store (tracker s) a = Some b \<longrightarrow>
        completed (metrics b) + failed (metrics b) \<le> int (handled s a))"

definition status_ok :: "system \<Rightarrow> bool" where
  "status_ok s \<longleftrightarrow>
     (\<forall>a b. store (tracker s) a = Some b \<longrightarrow>
        (status b = Processing \<or> status b = Completed \<longrightarrow> 0 < started s a) \<and>
        (started s a \<le> 1 \<and> status b = Completed \<longrightarrow>
           (\<forall>k < length (runs s). run_batch (runs s ! k) = a \<longrightarrow>
              run_phase (runs s ! k) = Finished)))"

definition invariant :: "system \<Rightarrow> bool" where
  "invariant s \<longleftrightarrow>
     store_ok (tracker s) \<and> runs_ok s \<and> objs_ok (tracker s) \<and> work_ok s \<and> status_ok s"

section \<open>The result archive (TranscriptController.downloadResults)\<close>

subsection \<open>Node's path.basename\<close>






subsection \<open>downloadResults\<close>




subsection \<open>The archive in the words of the specification\<close>










section \<open>Example inputs\<close>

definition demo_file :: multer_file where
  "demo_file = \<lparr> originalname = ''call.txt'', mimetype = ''text/plain'',
                 path = ''uploads/call.txt'' \<rparr>"

definition demo_config :: job_config where
  "demo_config =
     \<lparr> jobDescription = ''Please analyze this customer support call transcript for sentiment'',
       prompt = ''Summarize the key issues raised by the customer'',
       models = \<lparr> openai = ''gpt-4o-mini'', claude = ''claude-sonnet-4-20250514'',
                  gemini = ''gemini-2.5-flash'' \<rparr> \<rparr>"

definition demo_fs :: "string \<Rightarrow> string option" where
  "demo_fs pth = Some ''Hello, my order has not arrived.''"

definition demo_files :: "transcript_file list" where
  "demo_files = [new_file 1 1000 demo_file ''Hello, my order has not arrived.'']"

definition demo_batch :: batch_job where
  "demo_batch = new_batch 0 1000 demo_files demo_config"

text \<open>A world in which every provider answers, and one in which every provider fails.\<close>

definition world_up :: world where
  "world_up =
     \<lparr> openai_api = (\<lambda>rq. Inr \<lparr> oa_choices = [Some ''The customer is upset.''],
                                  oa_total_tokens = Some 42 \<rparr>),
       anthropic_api = (\<lambda>rq. Inr \<lparr> an_content = [TextBlock ''A late delivery.''],
                                     an_usage = Some \<lparr> input_tokens = 30, output_tokens = 12 \<rparr> \<rparr>),
       gemini_api = (\<lambda>rq. Inr ''Order not delivered.''),
       call_started = 2000, now = 2500 \<rparr>"

definition world_down :: world where
  "world_down =
     \<lparr> openai_api = (\<lambda>rq. Inl ''quota''), anthropic_api = (\<lambda>rq. Inl ''quota''),
       gemini_api = (\<lambda>rq. Inl ''quota''), call_started = 2000, now = 2500 \<rparr>"

text \<open>The tracker after one \<^verbatim>\<open>createBatch\<close> with one file.\<close>

definition demo_processor :: processor where
  "demo_processor = \<lparr> store = [0 \<mapsto> demo_batch], jobs = {0}, next_uuid = 2 \<rparr>"





text \<open>The tracker after a first complete run of \<^verbatim>\<open>startProcessing\<close> with every provider up.\<close>

definition done_processor :: processor where
  "done_processor = snd (startProcessing (\<lambda>i. world_up) 1500 0 demo_processor)"

text \<open>The first event of the examples: the upload of one file.\<close>

definition demo_create :: event where
  "demo_create = Create demo_fs [demo_file] demo_config 1000"

section \<open>Properties\<close>

subsection \<open>Basic facts\<close>

lemma demo_processor_created:
  "createBatch demo_fs [demo_file] demo_config 1000 new_processor = (Inr 0, demo_processor)"
  by (simp add: createBatch_def new_processor_def demo_processor_def demo_batch_def
      demo_files_def demo_fs_def)

lemma jobs_get_demo [simp]: "jobs_get demo_processor 0 = Some demo_batch"
  by (simp add: jobs_get_def demo_processor_def)

lemma demo_batch_fields [simp]:
  "status demo_batch = Created" "jobConfig demo_batch = Some demo_config"
  "files demo_batch = demo_files" "startedAt demo_batch = None"
  by (simp_all add: demo_batch_def new_batch_def)

subsection \<open>Field-wise effect of the mutations\<close>

text \<open>
  What each mutation of a batch object does to every field that a statement below reads.
\<close>

lemma store_update_batch [simp]:
  "store (update_batch a f p) x = (if x = a then map_option f (store p a) else store p x)"
  by (simp add: update_batch_def)

lemma jobs_update_batch [simp]: "jobs (update_batch a f p) = jobs p"
  by (simp add: update_batch_def)

lemma next_uuid_update_batch [simp]: "next_uuid (update_batch a f p) = next_uuid p"
  by (simp add: update_batch_def)

lemma with_file_fields [simp]:
  "status (with_file i f b) = status b" "jobConfig (with_file i f b) = jobConfig b"
  "metrics (with_file i f b) = metrics b" "length (files (with_file i f b)) = length (files b)"
  "startedAt (with_file i f b) = startedAt b" "completedAt (with_file i f b) = completedAt b"
  by (simp_all add: with_file_def)

lemma with_file_nth:
  "files (with_file i f b) ! k = (if k = i \<and> i < length (files b) then f (files b ! i) else files b ! k)"
  by (cases "i < length (files b)") (simp_all add: with_file_def nth_list_update list_update_beyond)

lemma with_metrics_fields [simp]:
  "status (with_metrics g b) = status b" "jobConfig (with_metrics g b) = jobConfig b"
  "metrics (with_metrics g b) = g (metrics b)" "files (with_metrics g b) = files b"
  "startedAt (with_metrics g b) = startedAt b" "completedAt (with_metrics g b) = completedAt b"
  by (simp_all add: with_metrics_def)

lemma enter_file_fields [simp]:
  "status (enter_file i b) = status b" "jobConfig (enter_file i b) = jobConfig b"
  "length (files (enter_file i b)) = length (files b)"
  "startedAt (enter_file i b) = startedAt b" "completedAt (enter_file i b) = completedAt b"
  "total (metrics (enter_file i b)) = total (metrics b)"
  "pending (metrics (enter_file i b)) = pending (metrics b) - 1"
  "processing (metrics (enter_file i b)) = processing (metrics b) + 1"
  "completed (metrics (enter_file i b)) = completed (metrics b)"
  "failed (metrics (enter_file i b)) = failed (metrics b)"
  "openaiComplete (metrics (enter_file i b)) = openaiComplete (metrics b)"
  "claudeComplete (metrics (enter_file i b)) = claudeComplete (metrics b)"
  "geminiComplete (metrics (enter_file i b)) = geminiComplete (metrics b)"
  by (simp_all add: enter_file_def)

lemma handle_fields [simp]:
  "status (handle_openai i r b) = status b" "jobConfig (handle_openai i r b) = jobConfig b"
  "length (files (handle_openai i r b)) = length (files b)"
  "startedAt (handle_openai i r b) = startedAt b" "completedAt (handle_openai i r b) = completedAt b"
  "status (handle_claude i r b) = status b" "jobConfig (handle_claude i r b) = jobConfig b"
  "length (files (handle_claude i r b)) = length (files b)"
  "startedAt (handle_claude i r b) = startedAt b" "completedAt (handle_claude i r b) = completedAt b"
  "status (handle_gemini i r b) = status b" "jobConfig (handle_gemini i r b) = jobConfig b"
  "length (files (handle_gemini i r b)) = length (files b)"
  "startedAt (handle_gemini i r b) = startedAt b" "completedAt (handle_gemini i r b) = completedAt b"
  by (simp_all add: handle_openai_def handle_claude_def handle_gemini_def split: settled.splits)

lemma handle_openai_metrics [simp]:
  "metrics (handle_openai i r b) =
     (metrics b) \<lparr> openaiComplete := openaiComplete (metrics b) + (if is_fulfilled r then 1 else 0) \<rparr>"
  by (cases r) (simp_all add: handle_openai_def)

lemma handle_claude_metrics [simp]:
  "metrics (handle_claude i r b) =
     (metrics b) \<lparr> claudeComplete := claudeComplete (metrics b) + (if is_fulfilled r then 1 else 0) \<rparr>"
  by (cases r) (simp_all add: handle_claude_def)

lemma handle_gemini_metrics [simp]:
  "metrics (handle_gemini i r b) =
     (metrics b) \<lparr> geminiComplete := geminiComplete (metrics b) + (if is_fulfilled r then 1 else 0) \<rparr>"
  by (cases r) (simp_all add: handle_gemini_def)

lemma successCount_pos:
  "(0 < successCount (r0, r1, r2)) = (is_fulfilled r0 \<or> is_fulfilled r1 \<or> is_fulfilled r2)"
  by (simp add: successCount_def)

lemma overall_status_fields [simp]:
  "status (overall_status i rs b) = status b" "jobConfig (overall_status i rs b) = jobConfig b"
  "length (files (overall_status i rs b)) = length (files b)"
  "startedAt (overall_status i rs b) = startedAt b" "completedAt (overall_status i rs b) = completedAt b"
  by (simp_all add: overall_status_def)

lemma overall_status_metrics [simp]:
  "metrics (overall_status i rs b) =
     (if 0 < successCount rs then (metrics b) \<lparr> completed := completed (metrics b) + 1 \<rparr>
      else (metrics b) \<lparr> failed := failed (metrics b) + 1 \<rparr>)"
  by (simp add: overall_status_def)

lemma record_end_fields [simp]:
  "status (record_end i t b) = status b" "jobConfig (record_end i t b) = jobConfig b"
  "length (files (record_end i t b)) = length (files b)"
  "startedAt (record_end i t b) = startedAt b" "completedAt (record_end i t b) = completedAt b"
  "metrics (record_end i t b) = (metrics b) \<lparr> processing := processing (metrics b) - 1 \<rparr>"
  by (simp_all add: record_end_def)

lemma settle_file_fields [simp]:
  "status (settle_file rs t i b) = status b" "jobConfig (settle_file rs t i b) = jobConfig b"
  "length (files (settle_file rs t i b)) = length (files b)"
  "startedAt (settle_file rs t i b) = startedAt b" "completedAt (settle_file rs t i b) = completedAt b"
  "total (metrics (settle_file rs t i b)) = total (metrics b)"
  "pending (metrics (settle_file rs t i b)) = pending (metrics b)"
  "processing (metrics (settle_file rs t i b)) = processing (metrics b) - 1"
  by (simp_all add: settle_file_def split: prod.splits)

lemma settle_file_counts [simp]:
  "completed (metrics (settle_file rs t i b)) =
     completed (metrics b) + (if 0 < successCount rs then 1 else 0)"
  "failed (metrics (settle_file rs t i b)) =
     failed (metrics b) + (if 0 < successCount rs then 0 else 1)"
  "openaiComplete (metrics (settle_file rs t i b)) =
     openaiComplete (metrics b) + (if is_fulfilled (fst rs) then 1 else 0)"
  "claudeComplete (metrics (settle_file rs t i b)) =
     claudeComplete (metrics b) + (if is_fulfilled (fst (snd rs)) then 1 else 0)"
  "geminiComplete (metrics (settle_file rs t i b)) =
     geminiComplete (metrics b) + (if is_fulfilled (snd (snd rs)) then 1 else 0)"
  by (simp_all add: settle_file_def split: prod.splits)

lemma mark_fields [simp]:
  "status (mark_processing t b) = Processing" "status (mark_completed t b) = Completed"
  "jobConfig (mark_processing t b) = jobConfig b" "jobConfig (mark_completed t b) = jobConfig b"
  "files (mark_processing t b) = files b" "files (mark_completed t b) = files b"
  "metrics (mark_processing t b) = metrics b" "metrics (mark_completed t b) = metrics b"
  by (simp_all add: mark_processing_def mark_completed_def)

lemma update_batch_twice:
  "update_batch a f (update_batch a g p) = update_batch a (f \<circ> g) p"
  by (simp add: update_batch_def option.map_comp)

lemma enter_file_nth:
  "files (enter_file i b) ! k =
     (if k = i \<and> i < length (files b) then (files b ! i) \<lparr> fstatus := FileProcessing \<rparr> else files b ! k)"
  by (simp add: enter_file_def with_file_nth)

lemma handle_nth_other:
  "k \<noteq> i \<Longrightarrow> files (handle_openai i r b) ! k = files b ! k"
  "k \<noteq> i \<Longrightarrow> files (handle_claude i r b) ! k = files b ! k"
  "k \<noteq> i \<Longrightarrow> files (handle_gemini i r b) ! k = files b ! k"
  by (simp_all add: handle_openai_def handle_claude_def handle_gemini_def with_file_nth
      split: settled.splits)

lemma settle_file_nth_other:
  "k \<noteq> i \<Longrightarrow> files (settle_file rs t i b) ! k = files b ! k"
  by (simp add: settle_file_def record_end_def overall_status_def with_file_nth handle_nth_other
      split: prod.splits)

lemma settle_file_nth_status:
  "i < length (files b) \<Longrightarrow>
   fstatus (files (settle_file rs t i b) ! i) =
     (if 0 < successCount rs then FileCompleted else FileFailed)"
  by (simp add: settle_file_def record_end_def overall_status_def with_file_nth
      split: prod.splits)

lemma settle_file_nth_error:
  "i < length (files b) \<Longrightarrow> \<not> 0 < successCount rs \<Longrightarrow>
   error (files (settle_file rs t i b) ! i) = Some all_failed_message"
  by (cases rs) (simp add: settle_file_def record_end_def overall_status_def with_file_nth)

lemma processTranscript_registered:
  assumes "batchId \<in> jobs p" "store p batchId = Some b" "jobConfig b = Some cfg"
  shows "processTranscript w batchId i p =
     update_batch batchId
       (settle_file (call_providers w (files b ! i) cfg) (now w) i \<circ> enter_file i) p"
  using assms
  by (simp add: processTranscript_def processTranscript_begin_def processTranscript_end_def
      jobs_get_def update_batch_twice)

subsection \<open>The sequential loop\<close>

text \<open>
  The effect of the file loop on the batch object, by induction on the number of files
  left: the loop invariant is \<open>loop_result\<close>.
\<close>

lemma successCount_provider_succeeded:
  "0 < successCount (call_providers w file cfg) \<longleftrightarrow> provider_succeeded w cfg file"
  by (cases "call_providers w file cfg") (simp add: provider_succeeded_def successCount_def)

lemma update_batch_Some:
  "store p a = Some b \<Longrightarrow> update_batch a f p = p \<lparr> store := (store p)(a \<mapsto> f b) \<rparr>"
  by (simp add: update_batch_def)

lemma loop_result_refl: "jobConfig b = Some cfg \<Longrightarrow> loop_result ws cfg i 0 b b"
  by (auto simp: loop_result_def)

lemma file_step_nth_other:
  "k \<noteq> i \<Longrightarrow> files ((settle_file rs t i \<circ> enter_file i) b) ! k = files b ! k"
  by (simp add: settle_file_nth_other enter_file_nth)

lemma filter_upt_cong:
  "(\<And>k. i \<le> k \<Longrightarrow> k < j \<Longrightarrow> P k = Q k) \<Longrightarrow> filter P [i ..< j] = filter Q [i ..< j]"
  by (rule filter_cong) auto

lemma loop_result_step:
  assumes cfg: "jobConfig b = Some cfg"
    and b1: "b1 = (settle_file (call_providers (ws i) (files b ! i) cfg) (now (ws i)) i \<circ> enter_file i) b"
    and rest: "loop_result ws cfg (Suc i) n b1 b'"
  shows "loop_result ws cfg i (Suc n) b b'"
proof -
  have same: "files b1 ! k = files b ! k" if "k \<noteq> i" for k
    using that unfolding b1 by (rule file_step_nth_other)
  have len: "length (files b1) = length (files b)" by (simp add: b1)
  have upt: "[i ..< i + Suc n] = i # [Suc i ..< Suc i + n]"
    by (simp add: upt_conv_Cons)
  have f1: "filter (\<lambda>k. P (files b1 ! k) k) [Suc i ..< Suc i + n]
          = filter (\<lambda>k. P (files b ! k) k) [Suc i ..< Suc i + n]" for P :: "transcript_file \<Rightarrow> nat \<Rightarrow> bool"
    by (rule filter_upt_cong) (simp add: same)
  note f1a = f1 [of "\<lambda>f k. provider_succeeded (ws k) cfg f"]
    and f1b = f1 [of "\<lambda>f k. \<not> provider_succeeded (ws k) cfg f"]
    and f1c = f1 [of "\<lambda>f k. is_fulfilled (fst (call_providers (ws k) f cfg))"]
    and f1d = f1 [of "\<lambda>f k. is_fulfilled (fst (snd (call_providers (ws k) f cfg)))"]
    and f1e = f1 [of "\<lambda>f k. is_fulfilled (snd (snd (call_providers (ws k) f cfg)))"]
  have st_i: "fstatus (files b1 ! i) =
      (if provider_succeeded (ws i) cfg (files b ! i) then FileCompleted else FileFailed)"
    if "i < length (files b)"
    using that by (simp add: b1 settle_file_nth_status successCount_provider_succeeded)
  have files': "\<forall>k. k < i \<or> i + Suc n \<le> k \<longrightarrow> files b' ! k = files b ! k"
    using rest same by (simp add: loop_result_def)
  have stat': "\<forall>k. i \<le> k \<and> k < i + Suc n \<and> k < length (files b) \<longrightarrow>
        fstatus (files b' ! k) =
          (if provider_succeeded (ws k) cfg (files b ! k) then FileCompleted else FileFailed)"
  proof (intro allI impI)
    fix k assume k: "i \<le> k \<and> k < i + Suc n \<and> k < length (files b)"
    show "fstatus (files b' ! k) =
          (if provider_succeeded (ws k) cfg (files b ! k) then FileCompleted else FileFailed)"
    proof (cases "k = i")
      case True
      have "files b' ! i = files b1 ! i" using rest by (simp add: loop_result_def)
      with True k st_i show ?thesis by simp
    next
      case False
      with k have "Suc i \<le> k \<and> k < Suc i + n \<and> k < length (files b1)" by (simp add: len)
      with rest have "fstatus (files b' ! k) =
          (if provider_succeeded (ws k) cfg (files b1 ! k) then FileCompleted else FileFailed)"
        by (simp add: loop_result_def)
      with False show ?thesis by (simp add: same)
    qed
  qed
  have m1: "total (metrics b1) = total (metrics b)"
    "pending (metrics b1) = pending (metrics b) - 1"
    "processing (metrics b1) = processing (metrics b)"
    "completed (metrics b1) = completed (metrics b) +
       (if provider_succeeded (ws i) cfg (files b ! i) then 1 else 0)"
    "failed (metrics b1) = failed (metrics b) +
       (if provider_succeeded (ws i) cfg (files b ! i) then 0 else 1)"
    "openaiComplete (metrics b1) = openaiComplete (metrics b) +
       (if is_fulfilled (fst (call_providers (ws i) (files b ! i) cfg)) then 1 else 0)"
    "claudeComplete (metrics b1) = claudeComplete (metrics b) +
       (if is_fulfilled (fst (snd (call_providers (ws i) (files b ! i) cfg))) then 1 else 0)"
    "geminiComplete (metrics b1) = geminiComplete (metrics b) +
       (if is_fulfilled (snd (snd (call_providers (ws i) (files b ! i) cfg))) then 1 else 0)"
    by (simp_all add: b1 successCount_provider_succeeded)
  have basic: "jobConfig b' = Some cfg" "status b' = status b"
    "length (files b') = length (files b)"
    using rest by (simp_all add: loop_result_def b1)
  have metrics': "total (metrics b') = total (metrics b)"
    "pending (metrics b') = pending (metrics b) - int (Suc n)"
    "processing (metrics b') = processing (metrics b)"
    using rest m1 by (simp_all add: loop_result_def)
  have r: "completed (metrics b') = completed (metrics b1) +
       int (length (filter (\<lambda>k. provider_succeeded (ws k) cfg (files b1 ! k)) [Suc i ..< Suc i + n]))"
    "failed (metrics b') = failed (metrics b1) +
       int (length (filter (\<lambda>k. \<not> provider_succeeded (ws k) cfg (files b1 ! k)) [Suc i ..< Suc i + n]))"
    "openaiComplete (metrics b') = openaiComplete (metrics b1) +
       int (length (filter (\<lambda>k. is_fulfilled (fst (call_providers (ws k) (files b1 ! k) cfg)))
         [Suc i ..< Suc i + n]))"
    "claudeComplete (metrics b') = claudeComplete (metrics b1) +
       int (length (filter (\<lambda>k. is_fulfilled (fst (snd (call_providers (ws k) (files b1 ! k) cfg))))
         [Suc i ..< Suc i + n]))"
    "geminiComplete (metrics b') = geminiComplete (metrics b1) +
       int (length (filter (\<lambda>k. is_fulfilled (snd (snd (call_providers (ws k) (files b1 ! k) cfg))))
         [Suc i ..< Suc i + n]))"
    using rest unfolding loop_result_def by blast+
  have c1: "completed (metrics b') = completed (metrics b) +
       int (length (filter (\<lambda>k. provider_succeeded (ws k) cfg (files b ! k)) [i ..< i + Suc n]))"
    unfolding r(1) f1a m1(4) upt by simp
  have c2: "failed (metrics b') = failed (metrics b) +
       int (length (filter (\<lambda>k. \<not> provider_succeeded (ws k) cfg (files b ! k)) [i ..< i + Suc n]))"
    unfolding r(2) f1b m1(5) upt by simp
  have c3: "openaiComplete (metrics b') = openaiComplete (metrics b) +
       int (length (filter (\<lambda>k. is_fulfilled (fst (call_providers (ws k) (files b ! k) cfg)))
         [i ..< i + Suc n]))"
    unfolding r(3) f1c m1(6) upt by simp
  have c4: "claudeComplete (metrics b') = claudeComplete (metrics b) +
       int (length (filter (\<lambda>k. is_fulfilled (fst (snd (call_providers (ws k) (files b ! k) cfg))))
         [i ..< i + Suc n]))"
    unfolding r(4) f1d m1(7) upt by simp
  have c5: "geminiComplete (metrics b') = geminiComplete (metrics b) +
       int (length (filter (\<lambda>k. is_fulfilled (snd (snd (call_providers (ws k) (files b ! k) cfg))))
         [i ..< i + Suc n]))"
    unfolding r(5) f1e m1(8) upt by simp
  show ?thesis
    unfolding loop_result_def
    using basic files' stat' metrics' c1 c2 c3 c4 c5 by blast
qed

lemma files_loop_effect:
  assumes "batchId \<in> jobs p" "store p batchId = Some b" "jobConfig b = Some cfg"
  shows "\<exists>b'. files_loop ws batchId i n p = p \<lparr> store := (store p)(batchId \<mapsto> b') \<rparr> \<and>
            loop_result ws cfg i n b b'"
  using assms
proof (induction n arbitrary: i p b)
  case 0
  have "files_loop ws batchId i 0 p = p \<lparr> store := (store p)(batchId \<mapsto> b) \<rparr>"
    using "0.prems"(2) by (simp add: fun_upd_idem)
  moreover have "loop_result ws cfg i 0 b b"
    using "0.prems"(3) by (rule loop_result_refl)
  ultimately show ?case by blast
next
  case (Suc n)
  define b1 where "b1 = (settle_file (call_providers (ws i) (files b ! i) cfg) (now (ws i)) i \<circ> enter_file i) b"
  define p1 where "p1 = p \<lparr> store := (store p)(batchId \<mapsto> b1) \<rparr>"
  have step: "processTranscript (ws i) batchId i p = p1"
    using Suc.prems
    by (simp add: processTranscript_registered update_batch_Some p1_def b1_def)
  have "batchId \<in> jobs p1" "store p1 batchId = Some b1" "jobConfig b1 = Some cfg"
    using Suc.prems by (simp_all add: p1_def b1_def)
  from Suc.IH [OF this, of "Suc i"]
  obtain b' where b': "files_loop ws batchId (Suc i) n p1 = p1 \<lparr> store := (store p1)(batchId \<mapsto> b') \<rparr>"
    and rest: "loop_result ws cfg (Suc i) n b1 b'"
    by blast
  have "files_loop ws batchId i (Suc n) p = p \<lparr> store := (store p)(batchId \<mapsto> b') \<rparr>"
    by (simp add: step b') (simp add: p1_def)
  moreover have "loop_result ws cfg i (Suc n) b b'"
    using loop_result_step [OF Suc.prems(3) b1_def rest] .
  ultimately show ?case by blast
qed

lemma startProcessing_effect:
  assumes "batchId \<in> jobs p" "store p batchId = Some b" "jobConfig b = Some cfg"
  shows "\<exists>b1 t1. startProcessing ws t0 batchId p =
              (None, p \<lparr> store := (store p)(batchId \<mapsto> mark_completed t1 b1) \<rparr>) \<and>
            loop_result ws cfg 0 (length (files b)) (mark_processing t0 b) b1"
proof -
  define p1 where "p1 = p \<lparr> store := (store p)(batchId \<mapsto> mark_processing t0 b) \<rparr>"
  have beg: "startProcessing_begin t0 batchId p = Inr p1"
    using assms by (simp add: startProcessing_begin_def jobs_get_def update_batch_Some p1_def)
  have p1: "batchId \<in> jobs p1" "store p1 batchId = Some (mark_processing t0 b)"
    "jobConfig (mark_processing t0 b) = Some cfg"
    using assms by (simp_all add: p1_def)
  have n: "length (batch_files p1 batchId) = length (files b)"
    by (simp add: batch_files_def p1_def)
  from files_loop_effect [OF p1, of ws 0 "length (files b)"]
  obtain b1 where loop: "files_loop ws batchId 0 (length (files b)) p1
        = p1 \<lparr> store := (store p1)(batchId \<mapsto> b1) \<rparr>"
    and res: "loop_result ws cfg 0 (length (files b)) (mark_processing t0 b) b1"
    by blast
  define t1 where "t1 = (if length (files b) = 0 then t0 else now (ws (length (files b) - 1)))"
  have "startProcessing ws t0 batchId p =
      (None, p \<lparr> store := (store p)(batchId \<mapsto> mark_completed t1 b1) \<rparr>)"
    by (simp add: startProcessing_def beg n loop Let_def t1_def update_batch_def)
       (simp add: p1_def)
  with res show ?thesis by blast
qed


lemma demo_store [simp]: "store demo_processor 0 = Some demo_batch" "0 \<in> jobs demo_processor"
  by (simp_all add: demo_processor_def)

lemma demo_down [simp]: "\<not> provider_succeeded world_down cfg file"
  by (simp add: provider_succeeded_def call_providers_def processWithOpenAI_def
      processWithClaude_def processWithGemini_def world_down_def)

lemma demo_up [simp]: "provider_succeeded world_up cfg file"
  by (simp add: provider_succeeded_def call_providers_def processWithOpenAI_def
      processWithClaude_def processWithGemini_def world_up_def)

lemma demo_metrics [simp]:
  "completed (metrics demo_batch) = 0" "failed (metrics demo_batch) = 0"
  "pending (metrics demo_batch) = 1" "total (metrics demo_batch) = 1"
  "openaiComplete (metrics demo_batch) = 0"
  by (simp_all add: demo_batch_def new_batch_def demo_files_def)

lemma demo_files_length [simp]: "length demo_files = 1" "demo_files \<noteq> []"
  by (simp_all add: demo_files_def)


subsection \<open>Outcome of a file and of the batch\<close>

text \<open>
  C1. When the three calls for a file have settled (segment \<open>processTranscript_end\<close>, in
  any state in which the file exists): if at least one call is fulfilled the file becomes
  \<open>completed\<close> and the batch's \<open>completed\<close> counter grows by one; if none is, the file
  becomes \<open>failed\<close> with the all-models-failed message and the \<open>failed\<close> counter grows by
  one. And a run of \<^verbatim>\<open>startProcessing\<close> on a registered batch with a configuration
  returns without error and leaves the batch \<open>completed\<close>, whatever the providers did:
  every file is then \<open>completed\<close> or \<open>failed\<close> according to its own calls, and the two
  counters have grown by the numbers of such files.
\<close>

theorem file_outcome_and_batch_completion:
  "(\<forall>b. store p a = Some b \<and> i < length (files b) \<longrightarrow>
      (\<exists>b'. store (processTranscript_end (r0, r1, r2) t a i p) a = Some b' \<and>
         (is_fulfilled r0 \<or> is_fulfilled r1 \<or> is_fulfilled r2 \<longrightarrow>
            fstatus (files b' ! i) = FileCompleted \<and>
            completed (metrics b') = completed (metrics b) + 1 \<and>
            failed (metrics b') = failed (metrics b)) \<and>
         (\<not> is_fulfilled r0 \<and> \<not> is_fulfilled r1 \<and> \<not> is_fulfilled r2 \<longrightarrow>
            fstatus (files b' ! i) = FileFailed \<and>
            error (files b' ! i) = Some ''All models failed to process the transcript'' \<and>
            failed (metrics b') = failed (metrics b) + 1 \<and>
            completed (metrics b') = completed (metrics b)))) \<and>
   (\<forall>b cfg. batchId \<in> jobs p \<and> store p batchId = Some b \<and> jobConfig b = Some cfg \<longrightarrow>
      (\<exists>p' b'. startProcessing ws t0 batchId p = (None, p') \<and>
         store p' batchId = Some b' \<and> status b' = Completed \<and>
         (\<forall>k < length (files b).
            fstatus (files b' ! k) =
              (if provider_succeeded (ws k) cfg (files b ! k) then FileCompleted else FileFailed)) \<and>
         completed (metrics b') = completed (metrics b) +
           int (length (filter (\<lambda>k. provider_succeeded (ws k) cfg (files b ! k))
                  [0 ..< length (files b)])) \<and>
         failed (metrics b') = failed (metrics b) +
           int (length (filter (\<lambda>k. \<not> provider_succeeded (ws k) cfg (files b ! k))
                  [0 ..< length (files b)]))))"
proof (intro conjI allI impI)
  fix b assume b: "store p a = Some b \<and> i < length (files b)"
  let ?b' = "settle_file (r0, r1, r2) t i b"
  have "store (processTranscript_end (r0, r1, r2) t a i p) a = Some ?b'"
    using b by (simp add: processTranscript_end_def)
  moreover have "is_fulfilled r0 \<or> is_fulfilled r1 \<or> is_fulfilled r2 \<longrightarrow>
            fstatus (files ?b' ! i) = FileCompleted \<and>
            completed (metrics ?b') = completed (metrics b) + 1 \<and>
            failed (metrics ?b') = failed (metrics b)"
    using b by (simp add: settle_file_nth_status successCount_pos)
  moreover have "\<not> is_fulfilled r0 \<and> \<not> is_fulfilled r1 \<and> \<not> is_fulfilled r2 \<longrightarrow>
            fstatus (files ?b' ! i) = FileFailed \<and>
            error (files ?b' ! i) = Some ''All models failed to process the transcript'' \<and>
            failed (metrics ?b') = failed (metrics b) + 1 \<and>
            completed (metrics ?b') = completed (metrics b)"
    using b settle_file_nth_error [of i b "(r0, r1, r2)" t]
    by (simp add: settle_file_nth_status successCount_pos all_failed_message_def)
  ultimately show "\<exists>b'. store (processTranscript_end (r0, r1, r2) t a i p) a = Some b' \<and>
         (is_fulfilled r0 \<or> is_fulfilled r1 \<or> is_fulfilled r2 \<longrightarrow>
            fstatus (files b' ! i) = FileCompleted \<and>
            completed (metrics b') = completed (metrics b) + 1 \<and>
            failed (metrics b') = failed (metrics b)) \<and>
         (\<not> is_fulfilled r0 \<and> \<not> is_fulfilled r1 \<and> \<not> is_fulfilled r2 \<longrightarrow>
            fstatus (files b' ! i) = FileFailed \<and>
            error (files b' ! i) = Some ''All models failed to process the transcript'' \<and>
            failed (metrics b') = failed (metrics b) + 1 \<and>
            completed (metrics b') = completed (metrics b))"
    by blast
next
  fix b cfg
  assume reg: "batchId \<in> jobs p \<and> store p batchId = Some b \<and> jobConfig b = Some cfg"
  then obtain b1 t1 where run: "startProcessing ws t0 batchId p =
              (None, p \<lparr> store := (store p)(batchId \<mapsto> mark_completed t1 b1) \<rparr>)"
    and res: "loop_result ws cfg 0 (length (files b)) (mark_processing t0 b) b1"
    using startProcessing_effect [of batchId p b cfg ws t0] by blast
  let ?p' = "p \<lparr> store := (store p)(batchId \<mapsto> mark_completed t1 b1) \<rparr>"
  let ?b' = "mark_completed t1 b1"
  have "store ?p' batchId = Some ?b'" "status ?b' = Completed" by simp_all
  moreover have "\<forall>k < length (files b).
            fstatus (files ?b' ! k) =
              (if provider_succeeded (ws k) cfg (files b ! k) then FileCompleted else FileFailed)"
    using res by (simp add: loop_result_def)
  moreover have "completed (metrics ?b') = completed (metrics b) +
           int (length (filter (\<lambda>k. provider_succeeded (ws k) cfg (files b ! k))
                  [0 ..< length (files b)]))"
    "failed (metrics ?b') = failed (metrics b) +
           int (length (filter (\<lambda>k. \<not> provider_succeeded (ws k) cfg (files b ! k))
                  [0 ..< length (files b)]))"
    using res by (simp_all add: loop_result_def)
  ultimately show "\<exists>p' b'. startProcessing ws t0 batchId p = (None, p') \<and>
         store p' batchId = Some b' \<and> status b' = Completed \<and>
         (\<forall>k < length (files b).
            fstatus (files b' ! k) =
              (if provider_succeeded (ws k) cfg (files b ! k) then FileCompleted else FileFailed)) \<and>
         completed (metrics b') = completed (metrics b) +
           int (length (filter (\<lambda>k. provider_succeeded (ws k) cfg (files b ! k))
                  [0 ..< length (files b)])) \<and>
         failed (metrics b') = failed (metrics b) +
           int (length (filter (\<lambda>k. \<not> provider_succeeded (ws k) cfg (files b ! k))
                  [0 ..< length (files b)]))"
    using run by blast
qed

theorem file_outcome_and_batch_completion_witness:
  "(\<exists>b'. store (processTranscript_end (Rejected ''quota'', Rejected ''quota'', Rejected ''quota'')
             2500 0 0 demo_processor) 0 = Some b' \<and>
      fstatus (files b' ! 0) = FileFailed \<and>
      error (files b' ! 0) = Some ''All models failed to process the transcript'' \<and>
      failed (metrics b') = 1 \<and> completed (metrics b') = 0) \<and>
   (\<exists>p' b'. startProcessing (\<lambda>i. world_down) 1500 0 demo_processor = (None, p') \<and>
      store p' 0 = Some b' \<and> status b' = Completed \<and>
      fstatus (files b' ! 0) = FileFailed \<and>
      completed (metrics b') = 0 \<and> failed (metrics b') = 1) \<and>
   (\<exists>p' b'. startProcessing (\<lambda>i. world_up) 1500 0 demo_processor = (None, p') \<and>
      store p' 0 = Some b' \<and> status b' = Completed \<and>
      fstatus (files b' ! 0) = FileCompleted \<and>
      completed (metrics b') = 1 \<and> failed (metrics b') = 0)"
  using file_outcome_and_batch_completion
      [of demo_processor 0 0 "Rejected ''quota''" "Rejected ''quota''" "Rejected ''quota''" 2500
        0 "\<lambda>i. world_down" 1500]
    file_outcome_and_batch_completion
      [of demo_processor 0 0 "Rejected ''quota''" "Rejected ''quota''" "Rejected ''quota''" 2500
        0 "\<lambda>i. world_up" 1500]
  by simp


subsection \<open>The job description is not forwarded\<close>

text \<open>
  C8. The job description does not reach any provider: each adapter builds the same
  request, and returns the same result, for any two job descriptions, and the three calls
  issued for a file are the same for two configurations that differ only in the job
  description. The messages sent consist of the prompt and the transcript content only.
\<close>

theorem jobDescription_not_forwarded:
  "openai_request c d1 pr m = openai_request c d2 pr m \<and>
   claude_request c d1 pr m = claude_request c d2 pr m \<and>
   gemini_request c d1 pr m = gemini_request c d2 pr m \<and>
   processWithOpenAI w c d1 pr m fname = processWithOpenAI w c d2 pr m fname \<and>
   processWithClaude w c d1 pr m fname = processWithClaude w c d2 pr m fname \<and>
   processWithGemini w c d1 pr m fname = processWithGemini w c d2 pr m fname \<and>
   call_providers w file (cfg \<lparr> jobDescription := d1 \<rparr>) = call_providers w file cfg \<and>
   oa_messages (openai_request c d1 pr m) =
     [(''system'', pr), (''user'', ''Analyze this transcript:'' @ [CHR 0x0A, CHR 0x0A] @ render c)] \<and>
   an_messages (claude_request c d1 pr m) =
     [(''user'', pr @ [CHR 0x0A, CHR 0x0A] @ ''Analyze this transcript:'' @ [CHR 0x0A, CHR 0x0A]
        @ render c)] \<and>
   gm_parts (gemini_request c d1 pr m) =
     [pr, [CHR 0x0A, CHR 0x0A] @ ''Analyze this transcript:'' @ [CHR 0x0A, CHR 0x0A] @ render c]"
  by (simp add: openai_request_def claude_request_def gemini_request_def processWithOpenAI_def
      processWithClaude_def processWithGemini_def call_providers_def analyze_header_def nl2_def
      Let_def)

subsection \<open>The archive\<close>






















subsection \<open>startProcessing on a batch in any status\<close>

text \<open>
  C10. \<^verbatim>\<open>startProcessing\<close> does not look at the status. For every registered batch
  with a configuration, whatever its status, the first segment succeeds and sets the
  status to \<open>processing\<close>, and the run handles every file again: \<open>pending\<close> goes down by the
  number of files and each provider counter goes up by the number of files whose call
  to that provider is fulfilled. After a second run \<open>pending\<close> is down by twice the number
  of files, which is below zero for a batch that was created with that many pending.
\<close>

theorem startProcessing_has_no_status_precondition:
  "batchId \<in> jobs p \<and> store p batchId = Some b \<and> jobConfig b = Some cfg \<longrightarrow>
     (\<exists>p1 b1. startProcessing_begin t0 batchId p = Inr p1 \<and> store p1 batchId = Some b1 \<and>
        status b1 = Processing) \<and>
     (\<exists>p' b'. startProcessing ws t0 batchId p = (None, p') \<and> store p' batchId = Some b' \<and>
        batchId \<in> jobs p' \<and> jobConfig b' = Some cfg \<and> status b' = Completed \<and>
        total (metrics b') = total (metrics b) \<and>
        pending (metrics b') = pending (metrics b) - int (length (files b)) \<and>
        openaiComplete (metrics b') = openaiComplete (metrics b) +
          int (length (filter (\<lambda>k. is_fulfilled (fst (call_providers (ws k) (files b ! k) cfg)))
            [0 ..< length (files b)])) \<and>
        claudeComplete (metrics b') = claudeComplete (metrics b) +
          int (length (filter (\<lambda>k. is_fulfilled (fst (snd (call_providers (ws k) (files b ! k) cfg))))
            [0 ..< length (files b)])) \<and>
        geminiComplete (metrics b') = geminiComplete (metrics b) +
          int (length (filter (\<lambda>k. is_fulfilled (snd (snd (call_providers (ws k) (files b ! k) cfg))))
            [0 ..< length (files b)])) \<and>
        (\<exists>p'' b''. startProcessing ws' t0' batchId p' = (None, p'') \<and>
           store p'' batchId = Some b'' \<and> status b'' = Completed \<and>
           total (metrics b'') = total (metrics b) \<and>
           pending (metrics b'') = pending (metrics b) - 2 * int (length (files b))))"
proof
  assume reg: "batchId \<in> jobs p \<and> store p batchId = Some b \<and> jobConfig b = Some cfg"
  have first: "\<exists>p1 b1. startProcessing_begin t0 batchId p = Inr p1 \<and> store p1 batchId = Some b1 \<and>
        status b1 = Processing"
    using reg by (simp add: startProcessing_begin_def jobs_get_def)
  from reg obtain b1 t1 where run: "startProcessing ws t0 batchId p =
              (None, p \<lparr> store := (store p)(batchId \<mapsto> mark_completed t1 b1) \<rparr>)"
    and res: "loop_result ws cfg 0 (length (files b)) (mark_processing t0 b) b1"
    using startProcessing_effect [of batchId p b cfg ws t0] by blast
  let ?b' = "mark_completed t1 b1"
  let ?p' = "p \<lparr> store := (store p)(batchId \<mapsto> ?b') \<rparr>"
  have reg': "batchId \<in> jobs ?p'" "store ?p' batchId = Some ?b'" "jobConfig ?b' = Some cfg"
    using reg res by (simp_all add: loop_result_def)
  have len': "length (files ?b') = length (files b)"
    using res by (simp add: loop_result_def)
  from reg' obtain b2 t2 where run2: "startProcessing ws' t0' batchId ?p' =
              (None, ?p' \<lparr> store := (store ?p')(batchId \<mapsto> mark_completed t2 b2) \<rparr>)"
    and res2: "loop_result ws' cfg 0 (length (files ?b')) (mark_processing t0' ?b') b2"
    using startProcessing_effect [of batchId ?p' ?b' cfg ws' t0'] by blast
  let ?b'' = "mark_completed t2 b2"
  let ?p'' = "?p' \<lparr> store := (store ?p')(batchId \<mapsto> ?b'') \<rparr>"
  have m1: "total (metrics ?b') = total (metrics b)"
    "pending (metrics ?b') = pending (metrics b) - int (length (files b))"
    using res by (simp_all add: loop_result_def)
  have m2: "total (metrics ?b'') = total (metrics ?b')"
    "pending (metrics ?b'') = pending (metrics ?b') - int (length (files b))"
    using res2 len' by (simp_all add: loop_result_def)
  have second: "\<exists>p'' b''. startProcessing ws' t0' batchId ?p' = (None, p'') \<and>
           store p'' batchId = Some b'' \<and> status b'' = Completed \<and>
           total (metrics b'') = total (metrics b) \<and>
           pending (metrics b'') = pending (metrics b) - 2 * int (length (files b))"
  proof (intro exI conjI)
    show "startProcessing ws' t0' batchId ?p' = (None, ?p'')" by (rule run2)
    show "store ?p'' batchId = Some ?b''" by simp
    show "status ?b'' = Completed" by simp
    show "total (metrics ?b'') = total (metrics b)" using m1 m2 by simp
    show "pending (metrics ?b'') = pending (metrics b) - 2 * int (length (files b))"
      using m1 m2 by simp
  qed
  have counts: "openaiComplete (metrics ?b') = openaiComplete (metrics b) +
          int (length (filter (\<lambda>k. is_fulfilled (fst (call_providers (ws k) (files b ! k) cfg)))
            [0 ..< length (files b)]))"
    "claudeComplete (metrics ?b') = claudeComplete (metrics b) +
          int (length (filter (\<lambda>k. is_fulfilled (fst (snd (call_providers (ws k) (files b ! k) cfg))))
            [0 ..< length (files b)]))"
    "geminiComplete (metrics ?b') = geminiComplete (metrics b) +
          int (length (filter (\<lambda>k. is_fulfilled (snd (snd (call_providers (ws k) (files b ! k) cfg))))
            [0 ..< length (files b)]))"
    using res by (simp_all add: loop_result_def)
  have "\<exists>p' b'. startProcessing ws t0 batchId p = (None, p') \<and> store p' batchId = Some b' \<and>
        batchId \<in> jobs p' \<and> jobConfig b' = Some cfg \<and> status b' = Completed \<and>
        total (metrics b') = total (metrics b) \<and>
        pending (metrics b') = pending (metrics b) - int (length (files b)) \<and>
        openaiComplete (metrics b') = openaiComplete (metrics b) +
          int (length (filter (\<lambda>k. is_fulfilled (fst (call_providers (ws k) (files b ! k) cfg)))
            [0 ..< length (files b)])) \<and>
        claudeComplete (metrics b') = claudeComplete (metrics b) +
          int (length (filter (\<lambda>k. is_fulfilled (fst (snd (call_providers (ws k) (files b ! k) cfg))))
            [0 ..< length (files b)])) \<and>
        geminiComplete (metrics b') = geminiComplete (metrics b) +
          int (length (filter (\<lambda>k. is_fulfilled (snd (snd (call_providers (ws k) (files b ! k) cfg))))
            [0 ..< length (files b)])) \<and>
        (\<exists>p'' b''. startProcessing ws' t0' batchId p' = (None, p'') \<and>
           store p'' batchId = Some b'' \<and> status b'' = Completed \<and>
           total (metrics b'') = total (metrics b) \<and>
           pending (metrics b'') = pending (metrics b) - 2 * int (length (files b)))"
  proof (rule exI [of _ "?p'"], rule exI [of _ "?b'"], intro conjI)
    show "startProcessing ws t0 batchId p = (None, ?p')" by (rule run)
    show "store ?p' batchId = Some ?b'" by simp
    show "batchId \<in> jobs ?p'" by (rule reg'(1))
    show "jobConfig ?b' = Some cfg" by (rule reg'(3))
    show "status ?b' = Completed" by simp
    show "total (metrics ?b') = total (metrics b)" by (rule m1(1))
    show "pending (metrics ?b') = pending (metrics b) - int (length (files b))" by (rule m1(2))
    show "openaiComplete (metrics ?b') = openaiComplete (metrics b) +
          int (length (filter (\<lambda>k. is_fulfilled (fst (call_providers (ws k) (files b ! k) cfg)))
            [0 ..< length (files b)]))" by (rule counts(1))
    show "claudeComplete (metrics ?b') = claudeComplete (metrics b) +
          int (length (filter (\<lambda>k. is_fulfilled (fst (snd (call_providers (ws k) (files b ! k) cfg))))
            [0 ..< length (files b)]))" by (rule counts(2))
    show "geminiComplete (metrics ?b') = geminiComplete (metrics b) +
          int (length (filter (\<lambda>k. is_fulfilled (snd (snd (call_providers (ws k) (files b ! k) cfg))))
            [0 ..< length (files b)]))" by (rule counts(3))
    show "\<exists>p'' b''. startProcessing ws' t0' batchId ?p' = (None, p'') \<and>
           store p'' batchId = Some b'' \<and> status b'' = Completed \<and>
           total (metrics b'') = total (metrics b) \<and>
           pending (metrics b'') = pending (metrics b) - 2 * int (length (files b))"
      by (rule second)
  qed
  with first show "(\<exists>p1 b1. startProcessing_begin t0 batchId p = Inr p1 \<and> store p1 batchId = Some b1 \<and>
        status b1 = Processing) \<and>
     (\<exists>p' b'. startProcessing ws t0 batchId p = (None, p') \<and> store p' batchId = Some b' \<and>
        batchId \<in> jobs p' \<and> jobConfig b' = Some cfg \<and> status b' = Completed \<and>
        total (metrics b') = total (metrics b) \<and>
        pending (metrics b') = pending (metrics b) - int (length (files b)) \<and>
        openaiComplete (metrics b') = openaiComplete (metrics b) +
          int (length (filter (\<lambda>k. is_fulfilled (fst (call_providers (ws k) (files b ! k) cfg)))
            [0 ..< length (files b)])) \<and>
        claudeComplete (metrics b') = claudeComplete (metrics b) +
          int (length (filter (\<lambda>k. is_fulfilled (fst (snd (call_providers (ws k) (files b ! k) cfg))))
            [0 ..< length (files b)])) \<and>
        geminiComplete (metrics b') = geminiComplete (metrics b) +
          int (length (filter (\<lambda>k. is_fulfilled (snd (snd (call_providers (ws k) (files b ! k) cfg))))
            [0 ..< length (files b)])) \<and>
        (\<exists>p'' b''. startProcessing ws' t0' batchId p' = (None, p'') \<and>
           store p'' batchId = Some b'' \<and> status b'' = Completed \<and>
           total (metrics b'') = total (metrics b) \<and>
           pending (metrics b'') = pending (metrics b) - 2 * int (length (files b))))"
    by blast
qed


lemma up_calls [simp]:
  "is_fulfilled (fst (call_providers world_up file cfg))"
  "is_fulfilled (fst (snd (call_providers world_up file cfg)))"
  "is_fulfilled (snd (snd (call_providers world_up file cfg)))"
  by (simp_all add: call_providers_def processWithOpenAI_def
      processWithClaude_def processWithGemini_def world_up_def)

lemma done_eval:
  "0 \<in> jobs done_processor \<and> 
   (\<exists>b. store done_processor 0 = Some b \<and> jobConfig b = Some demo_config \<and> status b = Completed
    \<and> length (files b) = 1 \<and> total (metrics b) = 1 \<and> pending (metrics b) = 0 \<and> openaiComplete (metrics b) = 1)"
  by (simp add: done_processor_def startProcessing_def startProcessing_begin_def jobs_get_def batch_files_def
    processTranscript_def processTranscript_begin_def processTranscript_end_def demo_files_def)


theorem startProcessing_has_no_status_precondition_witness:
  "\<exists>b. store done_processor 0 = Some b \<and> status b = Completed \<and>
     (\<exists>p1 b1. startProcessing_begin 9000 0 done_processor = Inr p1 \<and> store p1 0 = Some b1 \<and>
        status b1 = Processing) \<and>
     (\<exists>p' b'. startProcessing (\<lambda>i. world_up) 9000 0 done_processor = (None, p') \<and>
        store p' 0 = Some b' \<and> status b' = Completed \<and>
        total (metrics b') = 1 \<and> pending (metrics b') = - 1 \<and> openaiComplete (metrics b') = 2)"
proof -
  from done_eval obtain b where b: "0 \<in> jobs done_processor" "store done_processor 0 = Some b"
    "jobConfig b = Some demo_config" "status b = Completed" "length (files b) = 1"
    "total (metrics b) = 1" "pending (metrics b) = 0" "openaiComplete (metrics b) = 1"
    by blast
  show ?thesis
    using startProcessing_has_no_status_precondition
      [of 0 done_processor b demo_config 9000 "\<lambda>i. world_up" "\<lambda>i. world_up" 9000] b
    by auto
qed

subsection \<open>Object steps and tracker steps\<close>

text \<open>
  Object steps keep \<open>total\<close>, the number of files and the configuration, keep a batch
  balanced and counted, and never lower a provider counter. Every segment other than a
  creation is a tracker step.
\<close>

lemma successCount_fst:
  "is_fulfilled (fst rs) \<Longrightarrow> 0 < successCount rs"
  "is_fulfilled (fst (snd rs)) \<Longrightarrow> 0 < successCount rs"
  "is_fulfilled (snd (snd rs)) \<Longrightarrow> 0 < successCount rs"
  by (cases rs; simp add: successCount_def)+

lemma obj_step_keeps:
  "obj_step b b' \<Longrightarrow>
     total (metrics b') = total (metrics b) \<and> length (files b') = length (files b) \<and>
     jobConfig b' = jobConfig b"
  by (induction rule: obj_step.induct) simp_all

lemma obj_step_balanced: "obj_step b b' \<Longrightarrow> balanced b \<Longrightarrow> balanced b'"
  by (induction rule: obj_step.induct) (simp_all add: balanced_def)

lemma settle_counted:
  assumes "counted b"
  shows "counted (settle_file rs t i b)"
proof (cases "0 < successCount rs")
  case True
  then show ?thesis using assms by (simp add: counted_def)
next
  case False
  with successCount_fst [of rs]
  have "\<not> is_fulfilled (fst rs)" "\<not> is_fulfilled (fst (snd rs))" "\<not> is_fulfilled (snd (snd rs))"
    by blast+
  with False assms show ?thesis by (simp add: counted_def)
qed

lemma obj_step_counted: "obj_step b b' \<Longrightarrow> counted b \<Longrightarrow> counted b'"
  by (induction rule: obj_step.induct) (simp_all add: settle_counted, simp_all add: counted_def)

lemma obj_step_mono:
  "obj_step b b' \<Longrightarrow>
     openaiComplete (metrics b) \<le> openaiComplete (metrics b') \<and>
     claudeComplete (metrics b) \<le> claudeComplete (metrics b') \<and>
     geminiComplete (metrics b) \<le> geminiComplete (metrics b')"
  by (induction rule: obj_step.induct) auto

lemma tracker_step_refl: "tracker_step p p"
  by (simp add: tracker_step_def obj_step.same)

lemma tracker_step_trans: "tracker_step p p' \<Longrightarrow> tracker_step p' p'' \<Longrightarrow> tracker_step p p''"
proof -
  assume 1: "tracker_step p p'" and 2: "tracker_step p' p''"
  have "\<exists>b''. store p'' a = Some b'' \<and> obj_step b b''" if "store p a = Some b" for a b
  proof -
    from 1 that obtain b' where "store p' a = Some b'" "obj_step b b'"
      unfolding tracker_step_def by blast
    moreover from 2 this obtain b'' where "store p'' a = Some b''" "obj_step b' b''"
      unfolding tracker_step_def by blast
    ultimately show ?thesis by (blast intro: obj_step.seq)
  qed
  moreover have "next_uuid p'' = next_uuid p" "jobs p'' \<subseteq> jobs p"
    "\<forall>a. store p a = None \<longrightarrow> store p'' a = None"
    using 1 2 unfolding tracker_step_def by auto
  ultimately show ?thesis unfolding tracker_step_def by blast
qed

lemma tracker_step_update:
  "(\<And>b. obj_step b (f b)) \<Longrightarrow> tracker_step p (update_batch a f p)"
  by (simp add: tracker_step_def obj_step.same)

lemma step_after: "tracker_step p (snd (loop_after t a i p))"
  by (simp add: loop_after_def tracker_step_refl tracker_step_update obj_step.completed)

lemma step_at: "tracker_step p (snd (loop_at t a i p))"
  by (auto simp: loop_at_def processTranscript_begin_def step_after tracker_step_update
      obj_step.completed obj_step.enter split: option.splits)

lemma step_begin: "startProcessing_begin t a p = Inr p1 \<Longrightarrow> tracker_step p p1"
  by (auto simp: startProcessing_begin_def tracker_step_update obj_step.processing
      split: option.splits)

lemma step_end: "tracker_step p (processTranscript_end rs t a i p)"
  by (simp add: processTranscript_end_def tracker_step_update obj_step.settle)

lemma step_cancel: "tracker_step p (snd (cancelBatch a p))"
  by (auto simp: cancelBatch_def tracker_step_refl tracker_step_update obj_step.cancelled
      split: option.splits)

lemma step_delete: "tracker_step p (snd (deleteBatch a p))"
  by (auto simp: deleteBatch_def tracker_step_def obj_step.same split: option.splits if_splits)

lemma tracker_Start:
  "tracker (apply_event (Start a t) s) =
     (case startProcessing_begin t a (tracker s) of
        Inl e \<Rightarrow> tracker s | Inr p1 \<Rightarrow> snd (loop_at t a 0 p1))"
  by (simp split: sum.splits prod.splits)

lemma runs_Start:
  "runs (apply_event (Start a t) s) =
     (case startProcessing_begin t a (tracker s) of
        Inl e \<Rightarrow> runs s
      | Inr p1 \<Rightarrow> runs s @ [\<lparr> run_batch = a, run_phase = fst (loop_at t a 0 p1) \<rparr>])"
  by (simp split: sum.splits prod.splits)

lemma Settle_disabled:
  "(\<And>i file cfg. \<not> settle_enabled s k i file cfg) \<Longrightarrow> apply_event (Settle k w) s = s"
  by (cases "run_phase (runs s ! k)") (auto simp: settle_enabled_def)

lemma Timer_disabled:
  "(\<And>i. \<not> timer_enabled s k i) \<Longrightarrow> apply_event (Timer k t) s = s"
  by (cases "run_phase (runs s ! k)") (auto simp: timer_enabled_def)

lemma Settle_enabled:
  assumes "settle_enabled s k i file cfg"
  shows "apply_event (Settle k w) s =
     \<lparr> tracker = snd (loop_after (now w) (run_batch (runs s ! k)) i
          (processTranscript_end (call_providers w file cfg) (now w) (run_batch (runs s ! k)) i
             (tracker s))),
       runs = (runs s)[k := \<lparr> run_batch = run_batch (runs s ! k),
          run_phase = fst (loop_after (now w) (run_batch (runs s ! k)) i
            (processTranscript_end (call_providers w file cfg) (now w) (run_batch (runs s ! k)) i
               (tracker s))) \<rparr>] \<rparr>"
  using assms by (simp add: settle_enabled_def Let_def split: prod.splits)

lemma Timer_enabled:
  assumes "timer_enabled s k i"
  shows "apply_event (Timer k t) s =
     \<lparr> tracker = snd (loop_at t (run_batch (runs s ! k)) (Suc i) (tracker s)),
       runs = (runs s)[k := \<lparr> run_batch = run_batch (runs s ! k),
          run_phase = fst (loop_at t (run_batch (runs s ! k)) (Suc i) (tracker s)) \<rparr>] \<rparr>"
  using assms by (simp add: timer_enabled_def Let_def split: prod.splits)

lemma event_tracker_step:
  assumes "\<And>fs fls cfg t. e \<noteq> Create fs fls cfg t"
  shows "tracker_step (tracker s) (tracker (apply_event e s))"
proof (cases e)
  case (Create fs fls cfg t)
  with assms show ?thesis by blast
next
  case (Start a t)
  show ?thesis
  proof (cases "startProcessing_begin t a (tracker s)")
    case (Inl err) then show ?thesis unfolding Start tracker_Start by (simp add: tracker_step_refl)
  next
    case (Inr p1)
    have "tracker_step (tracker s) (snd (loop_at t a 0 p1))"
      using step_begin [OF Inr] step_at [of p1 t a 0] by (rule tracker_step_trans)
    then show ?thesis unfolding Start tracker_Start Inr by simp
  qed
next
  case (Settle k w)
  show ?thesis
  proof (cases "\<exists>i file cfg. settle_enabled s k i file cfg")
    case False then show ?thesis unfolding Settle by (simp add: Settle_disabled tracker_step_refl del: apply_event.simps)
  next
    case True
    then obtain i fl cfg where en: "settle_enabled s k i fl cfg" by blast
    show ?thesis unfolding Settle Settle_enabled [OF en]
      by (simp, rule tracker_step_trans [OF step_end step_after])
  qed
next
  case (Timer k t)
  show ?thesis
  proof (cases "\<exists>i. timer_enabled s k i")
    case False then show ?thesis unfolding Timer by (simp add: Timer_disabled tracker_step_refl del: apply_event.simps)
  next
    case True
    then obtain i where en: "timer_enabled s k i" by blast
    show ?thesis unfolding Timer Timer_enabled [OF en] by (simp add: step_at)
  qed
next
  case (Cancel a) then show ?thesis by (simp add: step_cancel)
next
  case (Delete a) then show ?thesis by (simp add: step_delete)
qed

subsection \<open>The shape of a segment\<close>

text \<open>
  What a segment of the loop leaves behind, and a case analysis of all events: each
  enabled event updates one batch object by a known function and appends or replaces one
  run.
\<close>

lemma update_batch_id: "update_batch a id p = p"
  by (simp add: update_batch_def option.map_id)

lemma batch_files_Some: "store p a = Some b \<Longrightarrow> batch_files p a = files b"
  by (simp add: batch_files_def)

lemma loop_after_shape:
  assumes "store p a = Some b"
  shows "\<exists>g ph. loop_after t a i p = (ph, update_batch a g p) \<and> tail_ok t i (length (files b)) g ph
           \<and> (\<forall>fl cfg. ph \<noteq> AwaitProviders i fl cfg)"
proof (cases "Suc i < length (files b)")
  case True
  then have "loop_after t a i p = (Sleeping i, update_batch a id p)"
    using assms by (simp add: loop_after_def batch_files_Some update_batch_id)
  with True show ?thesis unfolding tail_ok_def by blast
next
  case False
  then have "loop_after t a i p = (Finished, update_batch a (mark_completed t) p)"
    using assms by (auto simp: loop_after_def batch_files_Some)
  then show ?thesis unfolding tail_ok_def by blast
qed

lemma loop_at_shape:
  assumes "store p a = Some b"
  shows "\<exists>g ph. loop_at t a i p = (ph, update_batch a g p) \<and> tail_ok t i (length (files b)) g ph"
proof (cases "i < length (files b)")
  case False
  then have "loop_at t a i p = (Finished, update_batch a (mark_completed t) p)"
    using assms by (simp add: loop_at_def batch_files_Some)
  then show ?thesis unfolding tail_ok_def by blast
next
  case True
  show ?thesis
  proof (cases "processTranscript_begin a i p")
    case None
    then have "loop_at t a i p = loop_after t a i p"
      using True assms by (simp add: loop_at_def batch_files_Some)
    with loop_after_shape [OF assms, of t i] show ?thesis by auto
  next
    case (Some x)
    then obtain cfg where "x = (files b ! i, cfg, update_batch a (enter_file i) p)"
      using assms by (auto simp: processTranscript_begin_def jobs_get_def split: option.splits if_splits)
    with Some have "loop_at t a i p = (AwaitProviders i (files b ! i) cfg, update_batch a (enter_file i) p)"
      using True assms by (simp add: loop_at_def batch_files_Some)
    with True show ?thesis unfolding tail_ok_def by blast
  qed
qed

lemma tail_ok_facts:
  assumes "tail_ok t i n g ph"
  shows "obj_step b (g b)"
    and "status (g b) = (if ph = Finished then Completed else status b)"
    and "phase_ok n ph"
    and "completed (metrics (g b)) = completed (metrics b)"
    and "failed (metrics (g b)) = failed (metrics b)"
    and "i \<le> n \<Longrightarrow> i \<le> steps n ph"
  using assms unfolding tail_ok_def
  by (auto simp: obj_step.same obj_step.enter obj_step.completed)

lemma tail_ok_steps_after:
  "tail_ok t i n g ph \<Longrightarrow> (\<forall>fl cfg. ph \<noteq> AwaitProviders i fl cfg) \<Longrightarrow> i < n \<Longrightarrow> Suc i \<le> steps n ph"
  unfolding tail_ok_def by auto

lemma filter_length_update:
  "k < length xs \<Longrightarrow> P x = P (xs ! k) \<Longrightarrow> length (filter P (xs[k := x])) = length (filter P xs)"
proof (induction xs arbitrary: k)
  case Nil then show ?case by simp
next
  case (Cons y ys)
  then show ?case by (cases k) auto
qed

lemma sum_list_map_update:
  fixes g :: "'a \<Rightarrow> nat"
  shows "k < length xs \<Longrightarrow> sum_list (map g (xs[k := x])) + g (xs ! k) = sum_list (map g xs) + g x"
proof (induction xs arbitrary: k)
  case Nil then show ?case by simp
next
  case (Cons y ys)
  then show ?case by (cases k) (auto simp: algebra_simps)
qed

lemma filter_le1_unique:
  "length (filter P xs) \<le> 1 \<Longrightarrow> j < length xs \<Longrightarrow> k < length xs \<Longrightarrow> P (xs ! j) \<Longrightarrow> P (xs ! k)
     \<Longrightarrow> j = k"
proof (induction xs arbitrary: j k)
  case Nil then show ?case by simp
next
  case (Cons y ys)
  show ?case
  proof (cases "P y")
    case True
    with Cons.prems(1) have "filter P ys = []" by simp
    then have none: "\<And>z. z \<in> set ys \<Longrightarrow> \<not> P z" by (simp add: filter_empty_conv)
    have "j = 0"
    proof (cases j)
      case (Suc j')
      with Cons.prems have "ys ! j' \<in> set ys" "P (ys ! j')" by simp_all
      with none show ?thesis by blast
    qed simp
    moreover have "k = 0"
    proof (cases k)
      case (Suc k')
      with Cons.prems have "ys ! k' \<in> set ys" "P (ys ! k')" by simp_all
      with none show ?thesis by blast
    qed simp
    ultimately show ?thesis by simp
  next
    case False
    with Cons.prems obtain j' k' where jk: "j = Suc j'" "k = Suc k'"
      by (cases j; cases k) auto
    with Cons.prems False have "j' = k'"
      using Cons.IH [of j' k'] by simp
    with jk show ?thesis by simp
  qed
qed

lemma sum_list_bounded:
  fixes g :: "'a \<Rightarrow> nat"
  assumes "\<And>x. x \<in> set xs \<Longrightarrow> P x \<Longrightarrow> g x \<le> n"
  shows "sum_list (map (\<lambda>x. if P x then g x else 0) xs) \<le> length (filter P xs) * n"
  using assms by (induction xs) (auto simp: add_le_mono)

lemma create_shape:
  "snd (createBatch fs fls cfg t p) = p \<lparr> next_uuid := Suc (next_uuid p) \<rparr> \<or>
   (\<exists>tf. snd (createBatch fs fls cfg t p) =
      p \<lparr> store := (store p)(next_uuid p \<mapsto> new_batch (next_uuid p) t tf cfg),
          jobs := insert (next_uuid p) (jobs p),
          next_uuid := Suc (next_uuid p) + length fls \<rparr>)"
  by (auto simp: createBatch_def Let_def split: option.splits)

lemma event_cases [consumes 1, case_names create_fail create_ok idle start settle timer cancel delete]:
  assumes ok: "runs_ok s"
  obtains
    (create_fail) fs fls cfg t where "e = Create fs fls cfg t"
      "apply_event e s = s \<lparr> tracker := (tracker s) \<lparr> next_uuid := Suc (next_uuid (tracker s)) \<rparr> \<rparr>"
  | (create_ok) fs fls cfg t tf where "e = Create fs fls cfg t"
      "apply_event e s = s \<lparr> tracker := (tracker s)
          \<lparr> store := (store (tracker s))(next_uuid (tracker s) \<mapsto>
               new_batch (next_uuid (tracker s)) t tf cfg),
            jobs := insert (next_uuid (tracker s)) (jobs (tracker s)),
            next_uuid := Suc (next_uuid (tracker s)) + length fls \<rparr> \<rparr>"
  | (idle) "apply_event e s = s"
  | (start) a t b g ph where "e = Start a t" "store (tracker s) a = Some b"
      "tail_ok t 0 (length (files b)) g ph"
      "apply_event e s = \<lparr> tracker = update_batch a (g \<circ> mark_processing t) (tracker s),
          runs = runs s @ [\<lparr> run_batch = a, run_phase = ph \<rparr>] \<rparr>"
  | (settle) k w i fl cfg b g ph where "e = Settle k w" "k < length (runs s)"
      "run_phase (runs s ! k) = AwaitProviders i fl cfg"
      "store (tracker s) (run_batch (runs s ! k)) = Some b" "i < length (files b)"
      "tail_ok (now w) i (length (files b)) g ph" "\<forall>fl cfg. ph \<noteq> AwaitProviders i fl cfg"
      "apply_event e s =
         \<lparr> tracker = update_batch (run_batch (runs s ! k))
             (g \<circ> settle_file (call_providers w fl cfg) (now w) i) (tracker s),
           runs = (runs s)[k := \<lparr> run_batch = run_batch (runs s ! k), run_phase = ph \<rparr>] \<rparr>"
  | (timer) k t i b g ph where "e = Timer k t" "k < length (runs s)"
      "run_phase (runs s ! k) = Sleeping i"
      "store (tracker s) (run_batch (runs s ! k)) = Some b" "Suc i < length (files b)"
      "tail_ok t (Suc i) (length (files b)) g ph"
      "apply_event e s =
         \<lparr> tracker = update_batch (run_batch (runs s ! k)) g (tracker s),
           runs = (runs s)[k := \<lparr> run_batch = run_batch (runs s ! k), run_phase = ph \<rparr>] \<rparr>"
  | (cancel) a b where "e = Cancel a" "store (tracker s) a = Some b"
      "status b \<noteq> Completed" "status b \<noteq> Cancelled"
      "apply_event e s = s \<lparr> tracker := update_batch a (\<lambda>b. b \<lparr> status := Cancelled \<rparr>) (tracker s) \<rparr>"
  | (delete) a where "e = Delete a"
      "apply_event e s = s \<lparr> tracker := (tracker s) \<lparr> jobs := jobs (tracker s) - {a} \<rparr> \<rparr>"
proof (cases e)
  case (Create fs fls cfg t)
  from create_shape [of fs fls cfg t "tracker s"] show ?thesis
  proof
    assume "snd (createBatch fs fls cfg t (tracker s)) = (tracker s) \<lparr> next_uuid := Suc (next_uuid (tracker s)) \<rparr>"
    then show ?thesis using Create create_fail by simp
  next
    assume "\<exists>tf. snd (createBatch fs fls cfg t (tracker s)) =
      (tracker s) \<lparr> store := (store (tracker s))(next_uuid (tracker s) \<mapsto>
            new_batch (next_uuid (tracker s)) t tf cfg),
          jobs := insert (next_uuid (tracker s)) (jobs (tracker s)),
          next_uuid := Suc (next_uuid (tracker s)) + length fls \<rparr>"
    then obtain tf where "snd (createBatch fs fls cfg t (tracker s)) =
      (tracker s) \<lparr> store := (store (tracker s))(next_uuid (tracker s) \<mapsto>
            new_batch (next_uuid (tracker s)) t tf cfg),
          jobs := insert (next_uuid (tracker s)) (jobs (tracker s)),
          next_uuid := Suc (next_uuid (tracker s)) + length fls \<rparr>" by blast
    then show ?thesis using Create create_ok [of fs fls cfg t tf] by simp
  qed
next
  case (Start a t)
  show ?thesis
  proof (cases "startProcessing_begin t a (tracker s)")
    case (Inl err)
    then have "apply_event e s = s" using Start by simp
    then show ?thesis by (rule idle)
  next
    case (Inr p1)
    then obtain b where b: "store (tracker s) a = Some b"
      and p1: "p1 = update_batch a (mark_processing t) (tracker s)"
      by (auto simp: startProcessing_begin_def jobs_get_def split: option.splits if_splits)
    have "store p1 a = Some (mark_processing t b)" using b p1 by simp
    from loop_at_shape [OF this, of t 0]
    obtain g ph where at: "loop_at t a 0 p1 = (ph, update_batch a g p1)"
      and tail: "tail_ok t 0 (length (files b)) g ph" by auto
    have "apply_event e s = \<lparr> tracker = update_batch a (g \<circ> mark_processing t) (tracker s),
          runs = runs s @ [\<lparr> run_batch = a, run_phase = ph \<rparr>] \<rparr>"
      using Start Inr at by (simp add: p1 update_batch_twice)
    with Start b tail show ?thesis by (rule start)
  qed
next
  case (Settle k w)
  show ?thesis
  proof (cases "\<exists>i fl cfg. settle_enabled s k i fl cfg")
    case False
    then have "apply_event e s = s" unfolding Settle by (simp add: Settle_disabled del: apply_event.simps)
    then show ?thesis by (rule idle)
  next
    case True
    then obtain i fl cfg where en: "settle_enabled s k i fl cfg" by blast
    then have k: "k < length (runs s)" and ph: "run_phase (runs s ! k) = AwaitProviders i fl cfg"
      by (simp_all add: settle_enabled_def)
    let ?a = "run_batch (runs s ! k)"
    from ok k ph obtain b where b: "store (tracker s) ?a = Some b" and i: "i < length (files b)"
      unfolding runs_ok_def by fastforce
    let ?p1 = "processTranscript_end (call_providers w fl cfg) (now w) ?a i (tracker s)"
    have "store ?p1 ?a = Some (settle_file (call_providers w fl cfg) (now w) i b)"
      using b by (simp add: processTranscript_end_def)
    from loop_after_shape [OF this, of "now w" i]
    obtain g ph' where after: "loop_after (now w) ?a i ?p1 = (ph', update_batch ?a g ?p1)"
      and tail: "tail_ok (now w) i (length (files b)) g ph'"
      and noaw: "\<forall>fl cfg. ph' \<noteq> AwaitProviders i fl cfg" by auto
    have "apply_event e s =
         \<lparr> tracker = update_batch ?a (g \<circ> settle_file (call_providers w fl cfg) (now w) i) (tracker s),
           runs = (runs s)[k := \<lparr> run_batch = ?a, run_phase = ph' \<rparr>] \<rparr>"
      unfolding Settle Settle_enabled [OF en] after
      by (simp add: processTranscript_end_def update_batch_twice)
    with Settle k ph b i tail noaw show ?thesis by (rule settle)
  qed
next
  case (Timer k t)
  show ?thesis
  proof (cases "\<exists>i. timer_enabled s k i")
    case False
    then have "apply_event e s = s" unfolding Timer by (simp add: Timer_disabled del: apply_event.simps)
    then show ?thesis by (rule idle)
  next
    case True
    then obtain i where en: "timer_enabled s k i" by blast
    then have k: "k < length (runs s)" and ph: "run_phase (runs s ! k) = Sleeping i"
      by (simp_all add: timer_enabled_def)
    let ?a = "run_batch (runs s ! k)"
    from ok k ph obtain b where b: "store (tracker s) ?a = Some b" and i: "Suc i < length (files b)"
      unfolding runs_ok_def by fastforce
    from loop_at_shape [OF b, of t "Suc i"]
    obtain g ph' where at: "loop_at t ?a (Suc i) (tracker s) = (ph', update_batch ?a g (tracker s))"
      and tail: "tail_ok t (Suc i) (length (files b)) g ph'" by auto
    have "apply_event e s =
         \<lparr> tracker = update_batch ?a g (tracker s),
           runs = (runs s)[k := \<lparr> run_batch = ?a, run_phase = ph' \<rparr>] \<rparr>"
      unfolding Timer Timer_enabled [OF en] at by simp
    with Timer k ph b i tail show ?thesis by (rule timer)
  qed
next
  case (Cancel a)
  show ?thesis
  proof (cases "fst (cancelBatch a (tracker s))")
    case False
    then have "snd (cancelBatch a (tracker s)) = tracker s"
      by (auto simp: cancelBatch_def split: option.splits if_splits)
    then have "apply_event e s = s" using Cancel by simp
    then show ?thesis by (rule idle)
  next
    case True
    then obtain b where "store (tracker s) a = Some b" "status b \<noteq> Completed" "status b \<noteq> Cancelled"
      "snd (cancelBatch a (tracker s)) = update_batch a (\<lambda>b. b \<lparr> status := Cancelled \<rparr>) (tracker s)"
      by (auto simp: cancelBatch_def jobs_get_def split: option.splits if_splits)
    then show ?thesis using Cancel cancel [of a b] by simp
  qed
next
  case (Delete a)
  show ?thesis
  proof (cases "fst (deleteBatch a (tracker s))")
    case False
    then have "snd (deleteBatch a (tracker s)) = tracker s"
      by (auto simp: deleteBatch_def split: option.splits if_splits)
    then have "apply_event e s = s" using Delete by simp
    then show ?thesis by (rule idle)
  next
    case True
    then have "snd (deleteBatch a (tracker s)) = (tracker s) \<lparr> jobs := jobs (tracker s) - {a} \<rparr>"
      by (auto simp: deleteBatch_def split: option.splits if_splits)
    then show ?thesis using Delete delete [of a] by simp
  qed
qed

subsection \<open>The sequential run is the uninterrupted run\<close>

text \<open>
  \<^verbatim>\<open>startProcessing\<close> as one function is the interleaved system run on the schedule in
  which nothing comes between the segments of the run.
\<close>

lemma processTranscript_store:
  assumes "batchId \<in> jobs p" "store p batchId = Some b" "jobConfig b = Some cfg"
  shows "batchId \<in> jobs (processTranscript w batchId i p)"
    and "\<exists>b'. store (processTranscript w batchId i p) batchId = Some b' \<and>
           jobConfig b' = Some cfg \<and> length (files b') = length (files b) \<and>
           (\<forall>k. k \<noteq> i \<longrightarrow> files b' ! k = files b ! k)"
  using assms
  by (simp_all add: processTranscript_registered settle_file_nth_other enter_file_nth)

lemma uninterrupted_loop:
  assumes "batchId \<in> jobs p" "store p batchId = Some b" "jobConfig b = Some cfg"
    and "i + Suc n = length (files b)"
    and "tracker s = update_batch batchId (enter_file i) p"
    and "k < length (runs s)"
    and "runs s ! k = \<lparr> run_batch = batchId, run_phase = AwaitProviders i (files b ! i) cfg \<rparr>"
  shows "tracker (run_events (schedule ws k i (Suc n)) s) =
     update_batch batchId (mark_completed (now (ws (i + n)))) (files_loop ws batchId i (Suc n) p)"
  using assms
proof (induction n arbitrary: i p b s)
  case 0
  let ?p' = "processTranscript (ws i) batchId i p"
  have en: "settle_enabled s k i (files b ! i) cfg"
    using "0.prems"(6,7) by (simp add: settle_enabled_def)
  have end_eq: "processTranscript_end (call_providers (ws i) (files b ! i) cfg) (now (ws i)) batchId i
      (tracker s) = ?p'"
    using "0.prems"(1,2,3,5)
    by (simp add: processTranscript_registered processTranscript_end_def update_batch_twice)
  from processTranscript_store(2) [OF "0.prems"(1,2,3), of "ws i" i]
  obtain b' where b': "store ?p' batchId = Some b'" "length (files b') = length (files b)" by blast
  have after: "loop_after (now (ws i)) batchId i ?p' =
      (Finished, update_batch batchId (mark_completed (now (ws i))) ?p')"
    using b' "0.prems"(4) by (simp add: loop_after_def batch_files_Some)
  show ?case
    using "0.prems"(7)
    by (simp add: Settle_enabled [OF en] end_eq after del: apply_event.simps)
next
  case (Suc n)
  let ?p' = "processTranscript (ws i) batchId i p"
  have en: "settle_enabled s k i (files b ! i) cfg"
    using Suc.prems(6,7) by (simp add: settle_enabled_def)
  have end_eq: "processTranscript_end (call_providers (ws i) (files b ! i) cfg) (now (ws i)) batchId i
      (tracker s) = ?p'"
    using Suc.prems(1,2,3,5)
    by (simp add: processTranscript_registered processTranscript_end_def update_batch_twice)
  from processTranscript_store [OF Suc.prems(1,2,3), of "ws i" i]
  obtain b' where reg': "batchId \<in> jobs ?p'" and b': "store ?p' batchId = Some b'"
    "jobConfig b' = Some cfg" "length (files b') = length (files b)"
    "\<forall>k. k \<noteq> i \<longrightarrow> files b' ! k = files b ! k" by blast
  have after: "loop_after (now (ws i)) batchId i ?p' = (Sleeping i, ?p')"
    using b' Suc.prems(4) by (simp add: loop_after_def batch_files_Some)
  define s1 where "s1 = apply_event (Settle k (ws i)) s"
  have s1: "tracker s1 = ?p'"
    "runs s1 = (runs s)[k := \<lparr> run_batch = batchId, run_phase = Sleeping i \<rparr>]"
    unfolding s1_def using Suc.prems(7)
    by (simp_all add: Settle_enabled [OF en] end_eq after del: apply_event.simps)
  have en1: "timer_enabled s1 k i"
    using s1(2) Suc.prems(6) by (simp add: timer_enabled_def)
  have at: "loop_at (now (ws i)) batchId (Suc i) ?p' =
      (AwaitProviders (Suc i) (files b' ! Suc i) cfg, update_batch batchId (enter_file (Suc i)) ?p')"
    using reg' b' Suc.prems(4)
    by (simp add: loop_at_def batch_files_Some processTranscript_begin_def jobs_get_def)
  define s2 where "s2 = apply_event (Timer k (now (ws i))) s1"
  have s2: "tracker s2 = update_batch batchId (enter_file (Suc i)) ?p'"
    "k < length (runs s2)"
    "runs s2 ! k = \<lparr> run_batch = batchId, run_phase = AwaitProviders (Suc i) (files b' ! Suc i) cfg \<rparr>"
    unfolding s2_def using s1 Suc.prems(6)
    by (simp_all add: Timer_enabled [OF en1] at del: apply_event.simps)
  have len: "Suc i + Suc n = length (files b')" using Suc.prems(4) b'(3) by simp
  have "tracker (run_events (schedule ws k (Suc i) (Suc n)) s2) =
      update_batch batchId (mark_completed (now (ws (Suc i + n))))
        (files_loop ws batchId (Suc i) (Suc n) ?p')"
    using reg' b'(1,2) len s2 by (rule Suc.IH)
  then show ?case
    by (simp add: s1_def s2_def del: apply_event.simps)
qed

lemma startProcessing_is_uninterrupted_run:
  assumes "batchId \<in> jobs (tracker s)" "store (tracker s) batchId = Some b" "jobConfig b = Some cfg"
  shows "tracker (run_events
           (Start batchId t0 # schedule ws (length (runs s)) 0 (length (files b))) s)
         = snd (startProcessing ws t0 batchId (tracker s))"
proof -
  let ?p1 = "update_batch batchId (mark_processing t0) (tracker s)"
  have beg: "startProcessing_begin t0 batchId (tracker s) = Inr ?p1"
    using assms by (simp add: startProcessing_begin_def jobs_get_def)
  have p1: "batchId \<in> jobs ?p1" "store ?p1 batchId = Some (mark_processing t0 b)"
    "jobConfig (mark_processing t0 b) = Some cfg"
    using assms by simp_all
  have n: "length (batch_files ?p1 batchId) = length (files b)"
    using assms(2) by (simp add: batch_files_def)
  show ?thesis
  proof (cases "length (files b)")
    case 0
    then have "loop_at t0 batchId 0 ?p1 = (Finished, update_batch batchId (mark_completed t0) ?p1)"
      by (simp add: loop_at_def n)
    with 0 show ?thesis
      by (simp add: beg startProcessing_def n Let_def)
  next
    case (Suc m)
    let ?f = "files (mark_processing t0 b) ! 0"
    have at: "loop_at t0 batchId 0 ?p1 =
        (AwaitProviders 0 ?f cfg, update_batch batchId (enter_file 0) ?p1)"
      using assms Suc
      by (simp add: loop_at_def n processTranscript_begin_def jobs_get_def)
    define s1 where "s1 = apply_event (Start batchId t0) s"
    have s1: "tracker s1 = update_batch batchId (enter_file 0) ?p1"
      "length (runs s) < length (runs s1)"
      "runs s1 ! length (runs s) = \<lparr> run_batch = batchId, run_phase = AwaitProviders 0 ?f cfg \<rparr>"
      unfolding s1_def by (simp_all add: beg at)
    have len: "0 + Suc m = length (files (mark_processing t0 b))" using Suc by simp
    have "tracker (run_events (schedule ws (length (runs s)) 0 (Suc m)) s1) =
        update_batch batchId (mark_completed (now (ws (0 + m)))) (files_loop ws batchId 0 (Suc m) ?p1)"
      using p1 len s1 by (rule uninterrupted_loop)
    then show ?thesis
      unfolding Suc
      by (simp add: s1_def beg startProcessing_def n Suc Let_def del: apply_event.simps files_loop.simps schedule.simps)
  qed
qed

subsection \<open>Preservation of the invariant\<close>

text \<open>
  Each part of the invariant is kept by every event, so it holds in every state
  reachable from the empty tracker.
\<close>

lemma new_batch_ok:
  "balanced (new_batch a t tf cfg)" "counted (new_batch a t tf cfg)"
  "total (metrics (new_batch a t tf cfg)) = int (length (files (new_batch a t tf cfg)))"
  "status (new_batch a t tf cfg) = Created"
  "completed (metrics (new_batch a t tf cfg)) = 0" "failed (metrics (new_batch a t tf cfg)) = 0"
  by (simp_all add: new_batch_def balanced_def counted_def)

lemma event_keeps_object:
  assumes "store_ok (tracker s)" "store (tracker s) a = Some b"
  shows "\<exists>b'. store (tracker (apply_event e s)) a = Some b' \<and> obj_step b b'"
proof (cases "\<exists>fs fls cfg t. e = Create fs fls cfg t")
  case False
  then have "tracker_step (tracker s) (tracker (apply_event e s))"
    by (intro event_tracker_step) blast
  with assms(2) show ?thesis unfolding tracker_step_def by blast
next
  case True
  then obtain fs fls cfg t where e: "e = Create fs fls cfg t" by blast
  from assms have "a \<noteq> next_uuid (tracker s)" unfolding store_ok_def by fastforce
  with create_shape [of fs fls cfg t "tracker s"] assms(2)
  have "store (tracker (apply_event e s)) a = Some b" unfolding e by auto
  then show ?thesis by (blast intro: obj_step.same)
qed

lemma event_object_origin:
  assumes "store_ok (tracker s)" "store (tracker (apply_event e s)) a = Some b'"
  shows "(\<exists>b. store (tracker s) a = Some b \<and> obj_step b b') \<or>
         (store (tracker s) a = None \<and> (\<exists>t tf cfg. b' = new_batch a t tf cfg))"
proof (cases "store (tracker s) a")
  case (Some b)
  from event_keeps_object [OF assms(1) Some, of e] assms(2) Some
  show ?thesis by auto
next
  case None
  show ?thesis
  proof (cases "\<exists>fs fls cfg t. e = Create fs fls cfg t")
    case False
    then have "tracker_step (tracker s) (tracker (apply_event e s))"
      by (intro event_tracker_step) blast
    with None assms(2) show ?thesis unfolding tracker_step_def by auto
  next
    case True
    then obtain fs fls cfg t where e: "e = Create fs fls cfg t" by blast
    with create_shape [of fs fls cfg t "tracker s"] assms(2) None
    show ?thesis by (fastforce split: if_splits)
  qed
qed

lemma objs_ok_step:
  assumes "store_ok (tracker s)" "objs_ok (tracker s)"
  shows "objs_ok (tracker (apply_event e s))"
  unfolding objs_ok_def
proof (intro allI impI)
  fix a b' assume b': "store (tracker (apply_event e s)) a = Some b'"
  from event_object_origin [OF assms(1) b']
  show "balanced b' \<and> counted b' \<and> total (metrics b') = int (length (files b'))"
  proof
    assume "\<exists>b. store (tracker s) a = Some b \<and> obj_step b b'"
    then obtain b where b: "store (tracker s) a = Some b" "obj_step b b'" by blast
    with assms(2) have "balanced b" "counted b" "total (metrics b) = int (length (files b))"
      unfolding objs_ok_def by blast+
    with b(2) show ?thesis
      using obj_step_balanced obj_step_counted obj_step_keeps by metis
  next
    assume "store (tracker s) a = None \<and> (\<exists>t tf cfg. b' = new_batch a t tf cfg)"
    then show ?thesis using new_batch_ok by blast
  qed
qed

lemma store_ok_step:
  assumes "store_ok (tracker s)"
  shows "store_ok (tracker (apply_event e s))"
proof (cases "\<exists>fs fls cfg t. e = Create fs fls cfg t")
  case False
  then have "tracker_step (tracker s) (tracker (apply_event e s))"
    by (intro event_tracker_step) blast
  with assms show ?thesis unfolding tracker_step_def store_ok_def
    by (metis option.distinct(1) option.exhaust)
next
  case True
  then obtain fs fls cfg t where e: "e = Create fs fls cfg t" by blast
  with create_shape [of fs fls cfg t "tracker s"] assms
  show ?thesis unfolding store_ok_def by (fastforce simp: less_Suc_eq trans_less_add1 split: if_splits)
qed

lemma started_append:
  "runs s' = runs s @ [r] \<Longrightarrow> started s' x = started s x + (if run_batch r = x then 1 else 0)"
  by (simp add: started_def runs_on_def)

lemma started_update:
  "runs s' = (runs s)[k := r] \<Longrightarrow> k < length (runs s) \<Longrightarrow> run_batch r = run_batch (runs s ! k)
     \<Longrightarrow> started s' x = started s x"
  by (simp add: started_def runs_on_def filter_length_update)

lemma started_same: "runs s' = runs s \<Longrightarrow> started s' x = started s x"
  by (simp add: started_def runs_on_def)

lemma handled_append:
  assumes "runs s' = runs s @ [r]"
    and "length (batch_files (tracker s') x) = length (batch_files (tracker s) x)"
  shows "handled s' x = handled s x +
     (if run_batch r = x then steps (length (batch_files (tracker s) x)) (run_phase r) else 0)"
  unfolding handled_def assms by simp

lemma handled_update:
  assumes "runs s' = (runs s)[k := r]" "k < length (runs s)"
    and "length (batch_files (tracker s') x) = length (batch_files (tracker s) x)"
  shows "handled s' x +
     (if run_batch (runs s ! k) = x
      then steps (length (batch_files (tracker s) x)) (run_phase (runs s ! k)) else 0)
   = handled s x +
     (if run_batch r = x then steps (length (batch_files (tracker s) x)) (run_phase r) else 0)"
  unfolding handled_def assms(1,3)
  by (rule sum_list_map_update [OF assms(2)])

lemma handled_same:
  assumes "runs s' = runs s"
    and "length (batch_files (tracker s') x) = length (batch_files (tracker s) x)"
  shows "handled s' x = handled s x"
  unfolding handled_def assms by simp

lemma event_keeps_length:
  assumes "store_ok (tracker s)" "store (tracker s) x = Some b"
  shows "length (batch_files (tracker (apply_event e s)) x) = length (batch_files (tracker s) x)"
proof -
  from event_keeps_object [OF assms, of e]
  obtain b' where "store (tracker (apply_event e s)) x = Some b'" "obj_step b b'" by blast
  then show ?thesis using assms(2) obj_step_keeps [of b b'] by (simp add: batch_files_Some)
qed

lemma runs_ok_step:
  assumes so: "store_ok (tracker s)" and ro: "runs_ok s"
  shows "runs_ok (apply_event e s)"
proof -
  let ?s' = "apply_event e s"
  have old: "\<exists>b'. store (tracker ?s') (run_batch (runs s ! k)) = Some b' \<and>
        phase_ok (length (files b')) (run_phase (runs s ! k))" if "k < length (runs s)" for k
  proof -
    from ro that obtain b where b: "store (tracker s) (run_batch (runs s ! k)) = Some b"
      "phase_ok (length (files b)) (run_phase (runs s ! k))" unfolding runs_ok_def by blast
    from event_keeps_object [OF so b(1), of e]
    obtain b' where "store (tracker ?s') (run_batch (runs s ! k)) = Some b'" "obj_step b b'" by blast
    with b(2) obj_step_keeps [of b b'] show ?thesis by simp
  qed
  have new: "\<exists>b'. store (tracker ?s') a = Some b' \<and> phase_ok (length (files b')) ph"
    if "store (tracker s) a = Some b" "phase_ok (length (files b)) ph" for a b ph
  proof -
    from event_keeps_object [OF so that(1), of e]
    obtain b' where "store (tracker ?s') a = Some b'" "obj_step b b'" by blast
    with that(2) obj_step_keeps [of b b'] show ?thesis by simp
  qed
  have same: "runs_ok ?s'" if "runs ?s' = runs s"
    unfolding runs_ok_def using old that by simp
  have app: "runs_ok ?s'" if "runs ?s' = runs s @ [\<lparr> run_batch = a, run_phase = ph \<rparr>]"
    "store (tracker s) a = Some b" "phase_ok (length (files b)) ph" for a b ph
    unfolding runs_ok_def using old new [OF that(2,3)] that(1)
    by (auto simp: nth_append less_Suc_eq)
  have upd: "runs_ok ?s'" if "runs ?s' = (runs s)[k := \<lparr> run_batch = a, run_phase = ph \<rparr>]"
    "store (tracker s) a = Some b" "phase_ok (length (files b)) ph" for a b ph k
  proof (unfold runs_ok_def, intro allI impI)
    fix j assume j: "j < length (runs ?s')"
    show "\<exists>b. store (tracker ?s') (run_batch (runs ?s' ! j)) = Some b \<and>
        phase_ok (length (files b)) (run_phase (runs ?s' ! j))"
    proof (cases "j = k")
      case True
      with j that(1) have "runs ?s' ! j = \<lparr> run_batch = a, run_phase = ph \<rparr>" by simp
      with new [OF that(2,3)] show ?thesis by simp
    next
      case False
      with j that(1) have "runs ?s' ! j = runs s ! j" "j < length (runs s)" by simp_all
      with old [of j] show ?thesis by simp
    qed
  qed
  from ro show ?thesis
  proof (cases rule: event_cases [where e = e])
    case (create_fail fs fls cfg t) then show ?thesis by (intro same) simp
  next
    case (create_ok fs fls cfg t tf) then show ?thesis by (intro same) simp
  next
    case idle then show ?thesis using ro by simp
  next
    case (start a t b g ph)
    have "phase_ok (length (files b)) ph" using start(3) by (rule tail_ok_facts(3))
    with start(2) show ?thesis by (rule app [rotated]) (simp add: start(4))
  next
    case (settle k w i fl cfg b g ph)
    have "phase_ok (length (files b)) ph" using settle(6) by (rule tail_ok_facts(3))
    with settle(4) show ?thesis by (rule upd [rotated]) (simp add: settle(8))
  next
    case (timer k t i b g ph)
    have "phase_ok (length (files b)) ph" using timer(6) by (rule tail_ok_facts(3))
    with timer(4) show ?thesis by (rule upd [rotated]) (simp add: timer(7))
  next
    case (cancel a b) then show ?thesis by (intro same) simp
  next
    case (delete a) then show ?thesis by (intro same) simp
  qed
qed

lemma work_ok_step:
  assumes so: "store_ok (tracker s)" and ro: "runs_ok s" and wo: "work_ok s"
  shows "work_ok (apply_event e s)"
  unfolding work_ok_def
proof (intro allI impI)
  let ?s' = "apply_event e s"
  fix x b' assume b': "store (tracker ?s') x = Some b'"
  let ?goal = "completed (metrics b') + failed (metrics b') \<le> int (handled ?s' x)"
  from event_object_origin [OF so b']
  show ?goal
  proof
    assume "store (tracker s) x = None \<and> (\<exists>t tf cfg. b' = new_batch x t tf cfg)"
    then show ?goal using new_batch_ok(5,6) by auto
  next
    assume "\<exists>b. store (tracker s) x = Some b \<and> obj_step b b'"
    then obtain b where b: "store (tracker s) x = Some b" by blast
    from wo b have ih: "completed (metrics b) + failed (metrics b) \<le> int (handled s x)"
      unfolding work_ok_def by blast
    have len: "length (batch_files (tracker ?s') x) = length (batch_files (tracker s) x)"
      using so b by (rule event_keeps_length)
    have n: "length (batch_files (tracker s) x) = length (files b)"
      using b by (simp add: batch_files_Some)
    have quiet: ?goal if "runs ?s' = runs s"
      "completed (metrics b') + failed (metrics b') = completed (metrics b) + failed (metrics b)"
      using ih handled_same [OF that(1) len] that(2) by simp
    from ro show ?goal
    proof (cases rule: event_cases [where e = e])
      case (create_fail fs fls cfg t)
      have "runs ?s' = runs s" "store (tracker ?s') x = store (tracker s) x"
        unfolding create_fail(2) by simp_all
      with b b' show ?thesis by (intro quiet) auto
    next
      case (create_ok fs fls cfg t tf)
      from so b have "x \<noteq> next_uuid (tracker s)" unfolding store_ok_def by fastforce
      then have "runs ?s' = runs s" "store (tracker ?s') x = store (tracker s) x"
        unfolding create_ok(2) by simp_all
      with b b' show ?thesis by (intro quiet) auto
    next
      case idle
      with b b' show ?thesis by (intro quiet) auto
    next
      case (cancel a c)
      have "runs ?s' = runs s"
        "store (tracker ?s') x = (if x = a then Some (b \<lparr> status := Cancelled \<rparr>) else Some b)"
        unfolding cancel(5) using b by auto
      with b' show ?thesis by (intro quiet) (auto split: if_splits)
    next
      case (delete a)
      have "runs ?s' = runs s" "store (tracker ?s') x = store (tracker s) x"
        unfolding delete(2) by simp_all
      with b b' show ?thesis by (intro quiet) auto
    next
      case (start a t c g ph)
      have r: "runs ?s' = runs s @ [\<lparr> run_batch = a, run_phase = ph \<rparr>]" by (simp add: start(4))
      have m: "completed (metrics b') + failed (metrics b') = completed (metrics b) + failed (metrics b)"
      proof (cases "x = a")
        case True
        with b b' start(2) have "b' = g (mark_processing t b)" by (simp add: start(4))
        then show ?thesis using tail_ok_facts(4,5) [OF start(3), of "mark_processing t b"] by simp
      next
        case False
        with b b' show ?thesis by (simp add: start(4))
      qed
      from handled_append [OF r len] have "handled s x \<le> handled ?s' x" by simp
      with ih m show ?thesis by simp
    next
      case (settle k w i fl cfg c g ph)
      let ?a = "run_batch (runs s ! k)"
      have r: "runs ?s' = (runs s)[k := \<lparr> run_batch = ?a, run_phase = ph \<rparr>]"
        by (simp add: settle(8))
      note hu = handled_update [OF r settle(2) len]
      show ?thesis
      proof (cases "x = ?a")
        case True
        with b settle(4) have cb: "c = b" by simp
        from True b b' have "b' = g (settle_file (call_providers w fl cfg) (now w) i b)"
          by (simp add: settle(8))
        then have m: "completed (metrics b') + failed (metrics b')
            = completed (metrics b) + failed (metrics b) + 1"
          using tail_ok_facts(4,5) [OF settle(6),
              of "settle_file (call_providers w fl cfg) (now w) i b"] by simp
        have "Suc i \<le> steps (length (files b)) ph"
          using settle(5,6,7) cb by (intro tail_ok_steps_after) auto
        moreover have "length (batch_files (tracker s) ?a) = length (files b)"
          using n True by simp
        ultimately have "handled s x + 1 \<le> handled ?s' x"
          using hu True by (simp add: settle(3))
        with ih m show ?thesis by simp
      next
        case False
        with b b' have m: "b' = b" by (simp add: settle(8))
        from hu False have "handled ?s' x = handled s x" by simp
        with ih m show ?thesis by simp
      qed
    next
      case (timer k t i c g ph)
      let ?a = "run_batch (runs s ! k)"
      have r: "runs ?s' = (runs s)[k := \<lparr> run_batch = ?a, run_phase = ph \<rparr>]"
        by (simp add: timer(7))
      note hu = handled_update [OF r timer(2) len]
      show ?thesis
      proof (cases "x = ?a")
        case True
        with b timer(4) have cb: "c = b" by simp
        from True b b' have "b' = g b" by (simp add: timer(7))
        then have m: "completed (metrics b') + failed (metrics b')
            = completed (metrics b) + failed (metrics b)"
          using tail_ok_facts(4,5) [OF timer(6), of b] by simp
        have "Suc i \<le> steps (length (files b)) ph"
          using tail_ok_facts(6) [OF timer(6)] timer(5) cb by simp
        moreover have "length (batch_files (tracker s) ?a) = length (files b)"
          using n True by simp
        ultimately have "handled s x \<le> handled ?s' x"
          using hu True by (simp add: timer(3))
        with ih m show ?thesis by simp
      next
        case False
        with b b' have m: "b' = b" by (simp add: timer(7))
        from hu False have "handled ?s' x = handled s x" by simp
        with ih m show ?thesis by simp
      qed
    qed
  qed
qed

lemma started_pos:
  assumes "k < length (runs s)" "run_batch (runs s ! k) = a"
  shows "0 < started s a"
proof -
  have "runs s ! k \<in> set (filter (\<lambda>r. run_batch r = a) (runs s))"
    using assms by simp
  then show ?thesis unfolding started_def runs_on_def by (rule length_pos_if_in_set)
qed

lemma started_unique:
  assumes "started s a \<le> 1" "j < length (runs s)" "k < length (runs s)"
    "run_batch (runs s ! j) = a" "run_batch (runs s ! k) = a"
  shows "j = k"
proof -
  have "length (filter (\<lambda>r. run_batch r = a) (runs s)) \<le> 1"
    using assms(1) by (simp add: started_def runs_on_def)
  from this assms(2,3) show ?thesis
    by (rule filter_le1_unique) (simp_all add: assms(4,5))
qed

lemma started_zero:
  assumes "started s a = 0" "k < length (runs s)"
  shows "run_batch (runs s ! k) \<noteq> a"
proof
  assume "run_batch (runs s ! k) = a"
  with assms(2) have "0 < started s a" by (rule started_pos)
  with assms(1) show False by simp
qed

lemma status_goalI:
  assumes "status b' = Processing \<or> status b' = Completed \<Longrightarrow> 0 < n"
    and "\<And>j. n \<le> 1 \<Longrightarrow> status b' = Completed \<Longrightarrow> j < length rs \<Longrightarrow> run_batch (rs ! j) = x
           \<Longrightarrow> run_phase (rs ! j) = Finished"
  shows "(status b' = Processing \<or> status b' = Completed \<longrightarrow> 0 < n) \<and>
        (n \<le> (1::nat) \<and> status b' = Completed \<longrightarrow>
           (\<forall>k < length rs. run_batch (rs ! k) = x \<longrightarrow> run_phase (rs ! k) = Finished))"
  using assms by blast

lemma status_ok_step:
  assumes so: "store_ok (tracker s)" and ro: "runs_ok s" and st: "status_ok s"
  shows "status_ok (apply_event e s)"
  unfolding status_ok_def
proof (intro allI impI)
  let ?s' = "apply_event e s"
  fix x b' assume b': "store (tracker ?s') x = Some b'"
  let ?goal = "(status b' = Processing \<or> status b' = Completed \<longrightarrow> 0 < started ?s' x) \<and>
        (started ?s' x \<le> 1 \<and> status b' = Completed \<longrightarrow>
           (\<forall>k < length (runs ?s'). run_batch (runs ?s' ! k) = x \<longrightarrow>
              run_phase (runs ?s' ! k) = Finished))"
  from event_object_origin [OF so b']
  show ?goal
  proof
    assume "store (tracker s) x = None \<and> (\<exists>t tf cfg. b' = new_batch x t tf cfg)"
    then show ?goal using new_batch_ok(4) by auto
  next
    assume "\<exists>b. store (tracker s) x = Some b \<and> obj_step b b'"
    then obtain b where b: "store (tracker s) x = Some b" by blast
    from st b have ih1: "status b = Processing \<or> status b = Completed \<Longrightarrow> 0 < started s x"
      and ih2: "\<And>k. started s x \<le> 1 \<Longrightarrow> status b = Completed \<Longrightarrow> k < length (runs s) \<Longrightarrow>
           run_batch (runs s ! k) = x \<Longrightarrow> run_phase (runs s ! k) = Finished"
      unfolding status_ok_def by blast+
    have quiet: ?goal if "runs ?s' = runs s" "status b' = status b \<or> status b' = Cancelled"
    proof (rule status_goalI)
      note sn = started_same [OF that(1), of x]
      assume "status b' = Processing \<or> status b' = Completed"
      with that(2) have "status b = Processing \<or> status b = Completed" by auto
      with ih1 sn show "0 < started ?s' x" by simp
    next
      note sn = started_same [OF that(1), of x]
      fix j assume "started ?s' x \<le> 1" "status b' = Completed" "j < length (runs ?s')"
        "run_batch (runs ?s' ! j) = x"
      moreover from this(2) that(2) have "status b = Completed" by auto
      ultimately show "run_phase (runs ?s' ! j) = Finished"
        using ih2 [of j] sn that(1) by simp
    qed
    have moved: ?goal
      if r: "runs ?s' = (runs s)[k := \<lparr> run_batch = run_batch (runs s ! k), run_phase = ph \<rparr>]"
        and k: "k < length (runs s)" and act: "run_phase (runs s ! k) \<noteq> Finished"
        and s1: "x = run_batch (runs s ! k) \<Longrightarrow>
                   status b' = (if ph = Finished then Completed else status b)"
        and s2: "x \<noteq> run_batch (runs s ! k) \<Longrightarrow> status b' = status b"
      for k ph
    proof -
      have sn: "started ?s' x = started s x"
        by (rule started_update [OF r k]) simp
      show ?goal
      proof (cases "x = run_batch (runs s ! k)")
        case True
        have pos: "0 < started s x" using k True by (intro started_pos) simp_all
        have fin_all: "run_phase (runs ?s' ! j) = Finished"
          if j: "j < length (runs ?s')" "run_batch (runs ?s' ! j) = x"
            and one: "started ?s' x \<le> 1" and fin: "status b' = Completed" for j
        proof -
          have jj: "j < length (runs s)" using j(1) r by simp
          have onj: "run_batch (runs s ! j) = x"
          proof (cases "j = k")
            case True
            with \<open>x = run_batch (runs s ! k)\<close> show ?thesis by simp
          next
            case False
            with r have "runs ?s' ! j = runs s ! j" by simp
            with j(2) show ?thesis by simp
          qed
          have le1: "started s x \<le> 1" using one sn by simp
          have onk: "run_batch (runs s ! k) = x" using True by simp
          from le1 jj k onj onk have jk: "j = k" by (rule started_unique)
          have "ph = Finished"
          proof (rule ccontr)
            assume "ph \<noteq> Finished"
            with s1 [OF True] fin have "status b = Completed" by simp
            from ih2 [OF le1 this k onk] act show False by simp
          qed
          with jk r k show ?thesis by simp
        qed
        show ?thesis
        proof (rule status_goalI)
          show "0 < started ?s' x" using pos sn by simp
        next
          fix j assume "started ?s' x \<le> 1" "status b' = Completed" "j < length (runs ?s')"
            "run_batch (runs ?s' ! j) = x"
          then show "run_phase (runs ?s' ! j) = Finished" using fin_all [of j] by simp
        qed
      next
        case False
        have fin_all: "run_phase (runs ?s' ! j) = Finished"
          if j: "j < length (runs ?s')" "run_batch (runs ?s' ! j) = x"
            and one: "started ?s' x \<le> 1" and fin: "status b' = Completed" for j
        proof -
          have jj: "j < length (runs s)" using j(1) r by simp
          have "j \<noteq> k" using j(2) r k False by auto
          with r have same: "runs ?s' ! j = runs s ! j" by simp
          with ih2 [of j] one sn fin s2 [OF False] jj j(2) show ?thesis by simp
        qed
        show ?thesis
        proof (rule status_goalI)
          assume "status b' = Processing \<or> status b' = Completed"
          with ih1 s2 [OF False] sn show "0 < started ?s' x" by simp
        next
          fix j assume "started ?s' x \<le> 1" "status b' = Completed" "j < length (runs ?s')"
            "run_batch (runs ?s' ! j) = x"
          then show "run_phase (runs ?s' ! j) = Finished" using fin_all [of j] by simp
        qed
      qed
    qed
    from ro show ?goal
    proof (cases rule: event_cases [where e = e])
      case (create_fail fs fls cfg t)
      have "runs ?s' = runs s" "store (tracker ?s') x = store (tracker s) x"
        unfolding create_fail(2) by simp_all
      with b b' show ?thesis by (intro quiet) auto
    next
      case (create_ok fs fls cfg t tf)
      from so b have "x \<noteq> next_uuid (tracker s)" unfolding store_ok_def by fastforce
      then have "runs ?s' = runs s" "store (tracker ?s') x = store (tracker s) x"
        unfolding create_ok(2) by simp_all
      with b b' show ?thesis by (intro quiet) auto
    next
      case idle
      with b b' show ?thesis by (intro quiet) auto
    next
      case (cancel a c)
      have "runs ?s' = runs s"
        "store (tracker ?s') x = (if x = a then Some (b \<lparr> status := Cancelled \<rparr>) else Some b)"
        unfolding cancel(5) using b by auto
      with b' show ?thesis by (intro quiet) (auto split: if_splits)
    next
      case (delete a)
      have "runs ?s' = runs s" "store (tracker ?s') x = store (tracker s) x"
        unfolding delete(2) by simp_all
      with b b' show ?thesis by (intro quiet) auto
    next
      case (start a t c g ph)
      have r: "runs ?s' = runs s @ [\<lparr> run_batch = a, run_phase = ph \<rparr>]" by (simp add: start(4))
      note sa = started_append [OF r, of x]
      show ?thesis
      proof (cases "x = a")
        case True
        with b b' have "b' = g (mark_processing t b)" by (simp add: start(4))
        then have sb: "status b' = (if ph = Finished then Completed else Processing)"
          using tail_ok_facts(2) [OF start(3), of "mark_processing t b"] by simp
        have fin_all: "run_phase (runs ?s' ! j) = Finished"
          if j: "j < length (runs ?s')" "run_batch (runs ?s' ! j) = x"
            and one: "started ?s' x \<le> 1" and fin: "status b' = Completed" for j
        proof -
          from one sa True have z: "started s x = 0" by simp
          have "j = length (runs s)"
          proof (rule ccontr)
            assume "j \<noteq> length (runs s)"
            with j(1) r have jj: "j < length (runs s)" by simp
            with j(2) r have "run_batch (runs s ! j) = x" by (simp add: nth_append)
            with started_zero [OF z jj] show False by simp
          qed
          moreover from fin sb have "ph = Finished" by (simp split: if_splits)
          ultimately show ?thesis using r by simp
        qed
        show ?thesis
        proof (rule status_goalI)
          show "0 < started ?s' x" using sa True by simp
        next
          fix j assume "started ?s' x \<le> 1" "status b' = Completed" "j < length (runs ?s')"
            "run_batch (runs ?s' ! j) = x"
          then show "run_phase (runs ?s' ! j) = Finished" using fin_all [of j] by simp
        qed
      next
        case False
        with b b' have bb: "b' = b" by (simp add: start(4))
        from sa False have sn: "started ?s' x = started s x" by simp
        have fin_all: "run_phase (runs ?s' ! j) = Finished"
          if j: "j < length (runs ?s')" "run_batch (runs ?s' ! j) = x"
            and one: "started ?s' x \<le> 1" and fin: "status b' = Completed" for j
        proof -
          have "j \<noteq> length (runs s)" using j(2) r False by auto
          with j(1) r have jj: "j < length (runs s)" by simp
          with r have "runs ?s' ! j = runs s ! j" by (simp add: nth_append)
          with ih2 [of j] one sn fin bb jj j(2) show ?thesis by simp
        qed
        show ?thesis
        proof (rule status_goalI)
          assume "status b' = Processing \<or> status b' = Completed"
          with ih1 bb sn show "0 < started ?s' x" by simp
        next
          fix j assume "started ?s' x \<le> 1" "status b' = Completed" "j < length (runs ?s')"
            "run_batch (runs ?s' ! j) = x"
          then show "run_phase (runs ?s' ! j) = Finished" using fin_all [of j] by simp
        qed
      qed
    next
      case (settle k w i fl cfg c g ph)
      let ?a = "run_batch (runs s ! k)"
      have r: "runs ?s' = (runs s)[k := \<lparr> run_batch = ?a, run_phase = ph \<rparr>]"
        by (simp add: settle(8))
      have s1: "status b' = (if ph = Finished then Completed else status b)" if "x = ?a"
      proof -
        from that b b' have "b' = g (settle_file (call_providers w fl cfg) (now w) i b)"
          by (simp add: settle(8))
        then show ?thesis
          using tail_ok_facts(2) [OF settle(6),
              of "settle_file (call_providers w fl cfg) (now w) i b"] by simp
      qed
      have s2: "status b' = status b" if "x \<noteq> ?a"
        using that b b' by (simp add: settle(8))
      show ?thesis
        by (rule moved [OF r settle(2) _ s1 s2]) (simp_all add: settle(3))
    next
      case (timer k t i c g ph)
      let ?a = "run_batch (runs s ! k)"
      have r: "runs ?s' = (runs s)[k := \<lparr> run_batch = ?a, run_phase = ph \<rparr>]"
        by (simp add: timer(7))
      have s1: "status b' = (if ph = Finished then Completed else status b)" if "x = ?a"
      proof -
        from that b b' have "b' = g b" by (simp add: timer(7))
        then show ?thesis using tail_ok_facts(2) [OF timer(6), of b] by simp
      qed
      have s2: "status b' = status b" if "x \<noteq> ?a"
        using that b b' by (simp add: timer(7))
      show ?thesis
        by (rule moved [OF r timer(2) _ s1 s2]) (simp_all add: timer(3))
    qed
  qed
qed

lemma invariant_init: "invariant new_system"
  by (simp add: invariant_def new_system_def new_processor_def store_ok_def runs_ok_def
      objs_ok_def work_ok_def status_ok_def)

lemma invariant_step: "invariant s \<Longrightarrow> invariant (apply_event e s)"
  unfolding invariant_def
  using store_ok_step runs_ok_step objs_ok_step work_ok_step status_ok_step by blast

lemma invariant_run: "invariant s \<Longrightarrow> invariant (run_events es s)"
  by (induction es arbitrary: s) (simp_all add: invariant_step)

lemma invariant_reach: "invariant (run_events es new_system)"
  using invariant_init by (rule invariant_run)

lemma steps_le: "phase_ok n ph \<Longrightarrow> steps n ph \<le> n"
  by (cases ph) simp_all

lemma handled_le:
  assumes ro: "runs_ok s" and b: "store (tracker s) a = Some b"
  shows "handled s a \<le> started s a * length (files b)"
proof -
  have "steps (length (files b)) (run_phase r) \<le> length (files b)"
    if "r \<in> set (runs s)" "run_batch r = a" for r
  proof -
    from that(1) obtain k where k: "k < length (runs s)" "r = runs s ! k"
      by (auto simp: in_set_conv_nth)
    with ro obtain b' where "store (tracker s) (run_batch r) = Some b'"
      "phase_ok (length (files b')) (run_phase r)" unfolding runs_ok_def by blast
    with that(2) b show ?thesis by (simp add: steps_le)
  qed
  then show ?thesis
    unfolding handled_def started_def runs_on_def batch_files_Some [OF b]
    by (rule sum_list_bounded)
qed

lemma counters_bounded:
  assumes "invariant s" "store (tracker s) a = Some b"
  shows "openaiComplete (metrics b) \<le> int (started s a) * total (metrics b)"
    "claudeComplete (metrics b) \<le> int (started s a) * total (metrics b)"
    "geminiComplete (metrics b) \<le> int (started s a) * total (metrics b)"
proof -
  from assms have c: "counted b" and t: "total (metrics b) = int (length (files b))"
    unfolding invariant_def objs_ok_def by blast+
  from assms have "completed (metrics b) + failed (metrics b) \<le> int (handled s a)"
    unfolding invariant_def work_ok_def by blast
  moreover from assms have "handled s a \<le> started s a * length (files b)"
    unfolding invariant_def by (intro handled_le) simp_all
  then have "int (handled s a) \<le> int (started s a) * int (length (files b))"
    by (metis of_nat_le_iff of_nat_mult)
  ultimately have "completed (metrics b) \<le> int (started s a) * total (metrics b)"
    using c t by (simp add: counted_def)
  with c show "openaiComplete (metrics b) \<le> int (started s a) * total (metrics b)"
    "claudeComplete (metrics b) \<le> int (started s a) * total (metrics b)"
    "geminiComplete (metrics b) \<le> int (started s a) * total (metrics b)"
    by (simp_all add: counted_def)
qed

subsection \<open>Evaluation of the examples\<close>

text \<open>
  The definitions that the simplifier unfolds to run the example events.
\<close>

lemmas run_defs = demo_create_def new_system_def demo_processor_created status_of_def metrics_of_def
    started_def runs_on_def
    startProcessing_begin_def jobs_get_def loop_at_def loop_after_def batch_files_def
    processTranscript_begin_def processTranscript_end_def
    cancelBatch_def demo_processor_def demo_files_def demo_batch_def new_batch_def

subsection \<open>The metrics add up\<close>

text \<open>
  C2. In every state the system reaches from the empty tracker by any sequence of
  segments (creations, starts, settlements, timers, cancellations, deletions, in any
  interleaving), the metrics of every batch satisfy
  \<open>pending + processing + completed + failed = total\<close>, also as \<^verbatim>\<open>getBatchProgress\<close>
  reports them; and no segment changes the \<open>total\<close> of an existing batch.
\<close>

theorem metrics_balanced_total_fixed:
  "(\<forall>a m. metrics_of (run_events es new_system) a = Some m \<longrightarrow>
      pending m + processing m + completed m + failed m = total m) \<and>
   (\<forall>batchId pr. getBatchProgress (tracker (run_events es new_system)) batchId = Some pr \<longrightarrow>
      pending (bp_metrics pr) + processing (bp_metrics pr) + completed (bp_metrics pr)
        + failed (bp_metrics pr) = total (bp_metrics pr)) \<and>
   (\<forall>a m. metrics_of (run_events es new_system) a = Some m \<longrightarrow>
      (\<exists>m'. metrics_of (apply_event e (run_events es new_system)) a = Some m' \<and>
         total m' = total m))"
proof (intro conjI allI impI)
  let ?s = "run_events es new_system"
  have inv: "invariant ?s" by (rule invariant_reach)
  {
    fix a m assume m: "metrics_of ?s a = Some m"
    then obtain b where b: "store (tracker ?s) a = Some b" "m = metrics b"
      by (auto simp: metrics_of_def)
    from inv have "balanced b" using b(1) unfolding invariant_def objs_ok_def by blast
    then show "pending m + processing m + completed m + failed m = total m"
      using b(2) by (simp add: balanced_def)
    from inv have "store_ok (tracker ?s)" by (simp add: invariant_def)
    from event_keeps_object [OF this b(1), of e]
    obtain b' where "store (tracker (apply_event e ?s)) a = Some b'" "obj_step b b'" by blast
    then show "\<exists>m'. metrics_of (apply_event e ?s) a = Some m' \<and> total m' = total m"
      using obj_step_keeps [of b b'] b(2) by (simp add: metrics_of_def)
  }
  fix batchId pr assume "getBatchProgress (tracker ?s) batchId = Some pr"
  then obtain b where b: "store (tracker ?s) batchId = Some b" "bp_metrics pr = metrics b"
    by (auto simp: getBatchProgress_def jobs_get_def split: option.splits if_splits)
  from inv have "balanced b" using b(1) unfolding invariant_def objs_ok_def by blast
  then show "pending (bp_metrics pr) + processing (bp_metrics pr) + completed (bp_metrics pr)
        + failed (bp_metrics pr) = total (bp_metrics pr)"
    using b(2) by (simp add: balanced_def)
qed

theorem metrics_balanced_total_fixed_witness:
  "\<exists>m m' pr. metrics_of (run_events [demo_create, Start 0 1500] new_system) 0 = Some m \<and>
     pending m = 0 \<and> processing m = 1 \<and>
     pending m + processing m + completed m + failed m = total m \<and>
     getBatchProgress (tracker (run_events [demo_create, Start 0 1500] new_system)) 0 = Some pr \<and>
     bp_status pr = Processing \<and> bp_processing pr = [''call.txt''] \<and>
     pending (bp_metrics pr) + processing (bp_metrics pr) + completed (bp_metrics pr)
        + failed (bp_metrics pr) = total (bp_metrics pr) \<and>
     metrics_of (apply_event (Settle 0 world_up)
        (run_events [demo_create, Start 0 1500] new_system)) 0 = Some m' \<and>
     total m' = total m"
proof -
  let ?s = "run_events [demo_create, Start 0 1500] new_system"
  obtain m where m: "metrics_of ?s 0 = Some m" "pending m = 0" "processing m = 1"
    by (simp add: run_defs)
  have name: "originalname demo_file = ''call.txt''" by (simp add: demo_file_def)
  obtain pr where pr: "getBatchProgress (tracker ?s) 0 = Some pr" "bp_status pr = Processing"
    "bp_processing pr = [''call.txt'']"
    by (simp add: run_defs getBatchProgress_def enter_file_def with_file_def new_file_def name)
  from metrics_balanced_total_fixed [of "[demo_create, Start 0 1500]" "Settle 0 world_up"] m(1) pr(1)
  have "pending m + processing m + completed m + failed m = total m"
    "pending (bp_metrics pr) + processing (bp_metrics pr) + completed (bp_metrics pr)
        + failed (bp_metrics pr) = total (bp_metrics pr)"
    "\<exists>m'. metrics_of (apply_event (Settle 0 world_up) ?s) 0 = Some m' \<and> total m' = total m"
    by blast+
  with m pr show ?thesis by blast
qed

text \<open>
  C3, as stated, fails: a batch cancelled while its loop is running is overwritten with
  \<open>completed\<close> when the loop ends (a second move to a terminal status), and a second
  \<^verbatim>\<open>startProcessing\<close> moves a \<open>completed\<close> batch to \<open>processing\<close> again.
\<close>

theorem status_transitions_counterexample:
  "status_of (run_events [demo_create, Start 0 1500, Cancel 0] new_system) 0 = Some Cancelled \<and>
   status_of (run_events [demo_create, Start 0 1500, Cancel 0, Settle 0 world_up] new_system) 0
     = Some Completed \<and>
   status_of (run_events [demo_create, Start 0 1500, Settle 0 world_up] new_system) 0
     = Some Completed \<and>
   status_of (run_events [demo_create, Start 0 1500, Settle 0 world_up, Start 0 3000] new_system) 0
     = Some Processing"
  by (simp add: run_defs)

text \<open>
  C3, amended. In every reachable state and for every segment: the status of a batch
  changes only by a \<^verbatim>\<open>startProcessing\<close> on it (to \<open>processing\<close>, or to \<open>completed\<close> when it
  has no files), by a segment of a processing loop (to \<open>completed\<close>), or by a
  \<^verbatim>\<open>cancelBatch\<close> on it when it is neither \<open>completed\<close> nor \<open>cancelled\<close> (to \<open>cancelled\<close>).
  Every move to \<open>processing\<close> is a \<^verbatim>\<open>startProcessing\<close> on the batch and starts one more
  run on it, so a batch started once moves to \<open>processing\<close> once. And a \<open>completed\<close> batch on
  which \<^verbatim>\<open>startProcessing\<close> has been invoked at most once stays \<open>completed\<close>.
\<close>

theorem status_transitions:
  "\<forall>a st st'. status_of (run_events es new_system) a = Some st \<and>
      status_of (apply_event e (run_events es new_system)) a = Some st' \<longrightarrow>
      (st' \<noteq> st \<longrightarrow>
         ((\<exists>t. e = Start a t) \<and> (st' = Processing \<or> st' = Completed)) \<or>
         (((\<exists>k w. e = Settle k w) \<or> (\<exists>k t. e = Timer k t)) \<and> st' = Completed) \<or>
         (e = Cancel a \<and> st \<noteq> Completed \<and> st \<noteq> Cancelled \<and> st' = Cancelled)) \<and>
      (st \<noteq> Processing \<and> st' = Processing \<longrightarrow>
         (\<exists>t. e = Start a t) \<and>
         started (apply_event e (run_events es new_system)) a
           = Suc (started (run_events es new_system) a)) \<and>
      (st = Completed \<and> started (apply_event e (run_events es new_system)) a \<le> 1 \<longrightarrow>
         st' = Completed)"
proof (intro allI impI)
  let ?s = "run_events es new_system"
  let ?s' = "apply_event e ?s"
  fix x st st'
  assume "status_of ?s x = Some st \<and> status_of ?s' x = Some st'"
  then obtain b b' where b: "store (tracker ?s) x = Some b" "st = status b"
    and b': "store (tracker ?s') x = Some b'" "st' = status b'"
    by (auto simp: status_of_def)
  have inv: "invariant ?s" by (rule invariant_reach)
  then have so: "store_ok (tracker ?s)" and ro: "runs_ok ?s" and sk: "status_ok ?s"
    by (simp_all add: invariant_def)
  from sk b(1) have ih1: "status b = Processing \<or> status b = Completed \<Longrightarrow> 0 < started ?s x"
    and ih2: "\<And>k. started ?s x \<le> 1 \<Longrightarrow> status b = Completed \<Longrightarrow> k < length (runs ?s) \<Longrightarrow>
         run_batch (runs ?s ! k) = x \<Longrightarrow> run_phase (runs ?s ! k) = Finished"
    unfolding status_ok_def by blast+
  let ?A = "st' \<noteq> st \<longrightarrow>
         ((\<exists>t. e = Start x t) \<and> (st' = Processing \<or> st' = Completed)) \<or>
         (((\<exists>k w. e = Settle k w) \<or> (\<exists>k t. e = Timer k t)) \<and> st' = Completed) \<or>
         (e = Cancel x \<and> st \<noteq> Completed \<and> st \<noteq> Cancelled \<and> st' = Cancelled)"
  let ?B = "st \<noteq> Processing \<and> st' = Processing \<longrightarrow>
         (\<exists>t. e = Start x t) \<and> started ?s' x = Suc (started ?s x)"
  let ?C = "st = Completed \<and> started ?s' x \<le> 1 \<longrightarrow> st' = Completed"
  have unchanged: "?A \<and> ?B \<and> ?C" if "st' = st" using that by simp
  from ro show "?A \<and> ?B \<and> ?C"
  proof (cases rule: event_cases [where e = e])
    case (create_fail fs fls cfg t)
    have "store (tracker ?s') x = store (tracker ?s) x" unfolding create_fail(2) by simp
    with b b' show ?thesis by (intro unchanged) simp
  next
    case (create_ok fs fls cfg t tf)
    from so b(1) have "x \<noteq> next_uuid (tracker ?s)" unfolding store_ok_def by fastforce
    then have "store (tracker ?s') x = store (tracker ?s) x" unfolding create_ok(2) by simp
    with b b' show ?thesis by (intro unchanged) simp
  next
    case idle
    with b b' show ?thesis by (intro unchanged) simp
  next
    case (delete a)
    have "store (tracker ?s') x = store (tracker ?s) x" unfolding delete(2) by simp
    with b b' show ?thesis by (intro unchanged) simp
  next
    case (cancel a c)
    show ?thesis
    proof (cases "x = a")
      case False
      then have "store (tracker ?s') x = store (tracker ?s) x" unfolding cancel(5) by simp
      with b b' show ?thesis by (intro unchanged) simp
    next
      case True
      with b(1) cancel(2) have cb: "c = b" by simp
      from True b(1) have "store (tracker ?s') x = Some (b \<lparr> status := Cancelled \<rparr>)"
        unfolding cancel(5) by simp
      with b'(1) have "status b' = Cancelled" by auto
      with cancel(1,3,4) cb True b(2) b'(2) show ?thesis by simp
    qed
  next
    case (start a t c g ph)
    have r: "runs ?s' = runs ?s @ [\<lparr> run_batch = a, run_phase = ph \<rparr>]" by (simp add: start(4))
    note sa = started_append [OF r, of x]
    show ?thesis
    proof (cases "x = a")
      case False
      with b(1) b'(1) have "b' = b" by (simp add: start(4))
      with b(2) b'(2) show ?thesis by (intro unchanged) simp
    next
      case True
      with b(1) b'(1) have "b' = g (mark_processing t b)" by (simp add: start(4))
      then have sb: "status b' = (if ph = Finished then Completed else Processing)"
        using tail_ok_facts(2) [OF start(3), of "mark_processing t b"] by simp
      have A: ?A using start(1) True sb b'(2) by auto
      have B: ?B using start(1) True sa by simp
      have C: ?C
      proof
        assume "st = Completed \<and> started ?s' x \<le> 1"
        with ih1 b(2) sa True show "st' = Completed" by simp
      qed
      from A B C show ?thesis by blast
    qed
  next
    case (settle k w i fl cfg c g ph)
    let ?a = "run_batch (runs ?s ! k)"
    have r: "runs ?s' = (runs ?s)[k := \<lparr> run_batch = ?a, run_phase = ph \<rparr>]"
      by (simp add: settle(8))
    have sn: "started ?s' x = started ?s x"
      by (rule started_update [OF r settle(2)]) simp
    show ?thesis
    proof (cases "x = ?a")
      case False
      with b(1) b'(1) have "b' = b" by (simp add: settle(8))
      with b(2) b'(2) show ?thesis by (intro unchanged) simp
    next
      case True
      with b(1) b'(1) have "b' = g (settle_file (call_providers w fl cfg) (now w) i b)"
        by (simp add: settle(8))
      then have sb: "status b' = (if ph = Finished then Completed else status b)"
        using tail_ok_facts(2) [OF settle(6),
            of "settle_file (call_providers w fl cfg) (now w) i b"] by simp
      have A: ?A using settle(1) sb b(2) b'(2) by (auto split: if_splits)
      have B: ?B using sb b(2) b'(2) by (auto split: if_splits)
      have C: ?C
      proof
        assume c: "st = Completed \<and> started ?s' x \<le> 1"
        with sn b(2) have "started ?s x \<le> 1" "status b = Completed" by simp_all
        from ih2 [OF this settle(2)] True settle(3) show "st' = Completed" by simp
      qed
      from A B C show ?thesis by blast
    qed
  next
    case (timer k t i c g ph)
    let ?a = "run_batch (runs ?s ! k)"
    have r: "runs ?s' = (runs ?s)[k := \<lparr> run_batch = ?a, run_phase = ph \<rparr>]"
      by (simp add: timer(7))
    have sn: "started ?s' x = started ?s x"
      by (rule started_update [OF r timer(2)]) simp
    show ?thesis
    proof (cases "x = ?a")
      case False
      with b(1) b'(1) have "b' = b" by (simp add: timer(7))
      with b(2) b'(2) show ?thesis by (intro unchanged) simp
    next
      case True
      with b(1) b'(1) have "b' = g b" by (simp add: timer(7))
      then have sb: "status b' = (if ph = Finished then Completed else status b)"
        using tail_ok_facts(2) [OF timer(6), of b] by simp
      have A: ?A using timer(1) sb b(2) b'(2) by (auto split: if_splits)
      have B: ?B using sb b(2) b'(2) by (auto split: if_splits)
      have C: ?C
      proof
        assume c: "st = Completed \<and> started ?s' x \<le> 1"
        with sn b(2) have "started ?s x \<le> 1" "status b = Completed" by simp_all
        from ih2 [OF this timer(2)] True timer(3) show "st' = Completed" by simp
      qed
      from A B C show ?thesis by blast
    qed
  qed
qed

theorem status_transitions_witness:
  "status_of (run_events [demo_create] new_system) 0 = Some Created \<and>
   status_of (apply_event (Start 0 1500) (run_events [demo_create] new_system)) 0 = Some Processing \<and>
   started (apply_event (Start 0 1500) (run_events [demo_create] new_system)) 0
     = Suc (started (run_events [demo_create] new_system) 0) \<and>
   status_of (run_events [demo_create, Start 0 1500, Settle 0 world_up] new_system) 0
     = Some Completed \<and>
   started (apply_event (Cancel 0)
     (run_events [demo_create, Start 0 1500, Settle 0 world_up] new_system)) 0 \<le> 1 \<and>
   status_of (apply_event (Cancel 0)
     (run_events [demo_create, Start 0 1500, Settle 0 world_up] new_system)) 0 = Some Completed"
proof -
  let ?s1 = "run_events [demo_create] new_system"
  let ?s3 = "run_events [demo_create, Start 0 1500, Settle 0 world_up] new_system"
  have a: "status_of ?s1 0 = Some Created"
    "status_of (apply_event (Start 0 1500) ?s1) 0 = Some Processing"
    by (simp_all add: run_defs)
  have b: "status_of ?s3 0 = Some Completed"
    "started (apply_event (Cancel 0) ?s3) 0 \<le> 1"
    by (simp_all add: run_defs)
  obtain st' where c: "status_of (apply_event (Cancel 0) ?s3) 0 = Some st'"
    by (simp add: run_defs)
  from status_transitions [of "[demo_create]" "Start 0 1500"] a
  have "started (apply_event (Start 0 1500) ?s1) 0 = Suc (started ?s1 0)" by blast
  moreover from status_transitions [of "[demo_create, Start 0 1500, Settle 0 world_up]" "Cancel 0"] b c
  have "st' = Completed" by blast
  ultimately show ?thesis using a b c by simp
qed

subsection \<open>Provider counters\<close>

text \<open>
  C4, as stated, fails: after two runs of \<^verbatim>\<open>startProcessing\<close> on a batch of one file,
  with OpenAI answering both times, \<open>openaiComplete\<close> is 2 and \<open>total\<close> is 1.
\<close>

theorem provider_counters_counterexample:
  "map_option openaiComplete (metrics_of (run_events
      [demo_create, Start 0 1500, Settle 0 world_up, Start 0 3000, Settle 1 world_up] new_system) 0)
     = Some 2 \<and>
   map_option total (metrics_of (run_events
      [demo_create, Start 0 1500, Settle 0 world_up, Start 0 3000, Settle 1 world_up] new_system) 0)
     = Some 1"
  by (simp add: run_defs)

text \<open>
  C4, amended. In every reachable state, no segment decreases a provider counter of
  an existing batch; each provider counter is at most \<open>total\<close> times the number of
  \<^verbatim>\<open>startProcessing\<close> runs started on the batch; so it is at most \<open>total\<close> for a batch on
  which \<^verbatim>\<open>startProcessing\<close> has been invoked at most once.
\<close>

theorem provider_counters_monotone_and_bounded:
  "(\<forall>a m. metrics_of (run_events es new_system) a = Some m \<longrightarrow>
      (\<exists>m'. metrics_of (apply_event e (run_events es new_system)) a = Some m' \<and>
         openaiComplete m \<le> openaiComplete m' \<and> claudeComplete m \<le> claudeComplete m' \<and>
         geminiComplete m \<le> geminiComplete m')) \<and>
   (\<forall>a m. metrics_of (run_events es new_system) a = Some m \<longrightarrow>
      openaiComplete m \<le> int (started (run_events es new_system) a) * total m \<and>
      claudeComplete m \<le> int (started (run_events es new_system) a) * total m \<and>
      geminiComplete m \<le> int (started (run_events es new_system) a) * total m) \<and>
   (\<forall>a m. metrics_of (run_events es new_system) a = Some m \<and>
        started (run_events es new_system) a \<le> 1 \<longrightarrow>
      openaiComplete m \<le> total m \<and> claudeComplete m \<le> total m \<and> geminiComplete m \<le> total m)"
proof -
  let ?s = "run_events es new_system"
  have inv: "invariant ?s" by (rule invariant_reach)
  have mono: "\<exists>m'. metrics_of (apply_event e ?s) a = Some m' \<and>
         openaiComplete m \<le> openaiComplete m' \<and> claudeComplete m \<le> claudeComplete m' \<and>
         geminiComplete m \<le> geminiComplete m'" if "metrics_of ?s a = Some m" for a m
  proof -
    from that obtain b where b: "store (tracker ?s) a = Some b" "m = metrics b"
      by (auto simp: metrics_of_def)
    from inv have "store_ok (tracker ?s)" by (simp add: invariant_def)
    from event_keeps_object [OF this b(1), of e]
    obtain b' where "store (tracker (apply_event e ?s)) a = Some b'" "obj_step b b'" by blast
    then show ?thesis using obj_step_mono [of b b'] b(2) by (simp add: metrics_of_def)
  qed
  have bound: "openaiComplete m \<le> int (started ?s a) * total m \<and>
      claudeComplete m \<le> int (started ?s a) * total m \<and>
      geminiComplete m \<le> int (started ?s a) * total m" if "metrics_of ?s a = Some m" for a m
  proof -
    from that obtain b where b: "store (tracker ?s) a = Some b" "m = metrics b"
      by (auto simp: metrics_of_def)
    with counters_bounded [OF inv b(1)] show ?thesis by simp
  qed
  have once: "openaiComplete m \<le> total m \<and> claudeComplete m \<le> total m \<and> geminiComplete m \<le> total m"
    if "metrics_of ?s a = Some m \<and> started ?s a \<le> 1" for a m
  proof -
    from that obtain b where b: "store (tracker ?s) a = Some b" "m = metrics b"
      by (auto simp: metrics_of_def)
    with inv have t: "0 \<le> total m" unfolding invariant_def objs_ok_def by fastforce
    from that have "started ?s a = 0 \<or> started ?s a = 1" by auto
    then have "int (started ?s a) * total m \<le> total m" using t by auto
    with bound [of a m] that show ?thesis by simp
  qed
  from mono bound once show ?thesis by blast
qed

theorem provider_counters_monotone_and_bounded_witness:
  "\<exists>m m'. metrics_of (run_events [demo_create, Start 0 1500, Settle 0 world_up] new_system) 0
       = Some m \<and>
     started (run_events [demo_create, Start 0 1500, Settle 0 world_up] new_system) 0 = 1 \<and>
     openaiComplete m = 1 \<and> openaiComplete m \<le> total m \<and>
     metrics_of (apply_event (Start 0 3000)
        (run_events [demo_create, Start 0 1500, Settle 0 world_up] new_system)) 0 = Some m' \<and>
     openaiComplete m \<le> openaiComplete m'"
proof -
  let ?s = "run_events [demo_create, Start 0 1500, Settle 0 world_up] new_system"
  obtain m where m: "metrics_of ?s 0 = Some m" "openaiComplete m = 1"
    by (simp add: run_defs)
  have st: "started ?s 0 = 1" by (simp add: run_defs)
  then have le: "started ?s 0 \<le> 1" by simp
  from provider_counters_monotone_and_bounded
    [of "[demo_create, Start 0 1500, Settle 0 world_up]" "Start 0 3000"] m(1) le
  have "openaiComplete m \<le> total m"
    "\<exists>m'. metrics_of (apply_event (Start 0 3000) ?s) 0 = Some m' \<and>
       openaiComplete m \<le> openaiComplete m'"
    by blast+
  with m st show ?thesis by blast
qed

subsection \<open>cancelBatch\<close>

text \<open>
  C5. \<^verbatim>\<open>cancelBatch(batchId)\<close> returns true exactly when the batch is registered and its
  status is neither \<open>completed\<close> nor \<open>cancelled\<close>. When it returns true the registered batch
  is the old one with status \<open>cancelled\<close> and nothing else has changed; when it returns
  false the whole state, registry included, is unchanged.
\<close>

theorem cancelBatch_iff:
  "(fst (cancelBatch batchId p) \<longleftrightarrow>
      (\<exists>batch. jobs_get p batchId = Some batch \<and> status batch \<noteq> Completed
         \<and> status batch \<noteq> Cancelled)) \<and>
   (fst (cancelBatch batchId p) \<longrightarrow>
      (\<exists>batch. jobs_get p batchId = Some batch \<and>
         jobs_get (snd (cancelBatch batchId p)) batchId = Some (batch \<lparr> status := Cancelled \<rparr>)) \<and>
      jobs (snd (cancelBatch batchId p)) = jobs p \<and>
      (\<forall>a. a \<noteq> batchId \<longrightarrow> store (snd (cancelBatch batchId p)) a = store p a)) \<and>
   (\<not> fst (cancelBatch batchId p) \<longrightarrow> snd (cancelBatch batchId p) = p)"
  by (auto simp: cancelBatch_def jobs_get_def update_batch_def split: option.splits if_splits)

theorem cancelBatch_iff_witness:
  "fst (cancelBatch 0 demo_processor) \<and>
   jobs_get (snd (cancelBatch 0 demo_processor)) 0 = Some (demo_batch \<lparr> status := Cancelled \<rparr>) \<and>
   \<not> fst (cancelBatch 0 (snd (cancelBatch 0 demo_processor))) \<and>
   snd (cancelBatch 0 (snd (cancelBatch 0 demo_processor))) = snd (cancelBatch 0 demo_processor) \<and>
   \<not> fst (cancelBatch 7 demo_processor) \<and> snd (cancelBatch 7 demo_processor) = demo_processor"
  using cancelBatch_iff [of 0 demo_processor]
    cancelBatch_iff [of 0 "snd (cancelBatch 0 demo_processor)"]
    cancelBatch_iff [of 7 demo_processor]
  by (simp add: cancelBatch_def jobs_get_def update_batch_def demo_processor_def)

subsection \<open>deleteBatch\<close>

text \<open>
  C6. \<^verbatim>\<open>deleteBatch(batchId)\<close> returns true exactly when the batch is registered and its
  status is not \<open>processing\<close>; then the id is no longer registered and every other
  registration is as before. When it returns false, in particular for a batch that is
  \<open>processing\<close>, the state is unchanged and the batch is still registered.
\<close>

theorem deleteBatch_iff:
  "(fst (deleteBatch batchId p) \<longleftrightarrow>
      (\<exists>batch. jobs_get p batchId = Some batch \<and> status batch \<noteq> Processing)) \<and>
   (fst (deleteBatch batchId p) \<longrightarrow>
      jobs_get (snd (deleteBatch batchId p)) batchId = None \<and>
      jobs (snd (deleteBatch batchId p)) = jobs p - {batchId} \<and>
      (\<forall>a. a \<noteq> batchId \<longrightarrow> jobs_get (snd (deleteBatch batchId p)) a = jobs_get p a)) \<and>
   (\<not> fst (deleteBatch batchId p) \<longrightarrow> snd (deleteBatch batchId p) = p) \<and>
   (\<forall>batch. jobs_get p batchId = Some batch \<and> status batch = Processing \<longrightarrow>
      \<not> fst (deleteBatch batchId p) \<and>
      jobs_get (snd (deleteBatch batchId p)) batchId = Some batch)"
  by (auto simp: deleteBatch_def jobs_get_def split: option.splits if_splits)

theorem deleteBatch_iff_witness:
  "fst (deleteBatch 0 demo_processor) \<and>
   jobs_get (snd (deleteBatch 0 demo_processor)) 0 = None \<and>
   \<not> fst (deleteBatch 0 (update_batch 0 (mark_processing 5) demo_processor)) \<and>
   jobs_get (snd (deleteBatch 0 (update_batch 0 (mark_processing 5) demo_processor))) 0
     = Some (mark_processing 5 demo_batch) \<and>
   \<not> fst (deleteBatch 7 demo_processor) \<and> snd (deleteBatch 7 demo_processor) = demo_processor"
  using deleteBatch_iff [of 0 demo_processor]
    deleteBatch_iff [of 0 "update_batch 0 (mark_processing 5) demo_processor"]
    deleteBatch_iff [of 7 demo_processor]
  by (simp add: deleteBatch_def jobs_get_def update_batch_def demo_processor_def
      mark_processing_def)

subsection \<open>startProcessing: the two failures\<close>

text \<open>
  C7. \<^verbatim>\<open>startProcessing(batchId)\<close> throws the not-found error when the id is not
  registered, and the configuration-missing error when the registered batch has no job
  configuration; in both cases the state it leaves is the state it found, so no status,
  timestamp or counter has changed, and no run has begun.
\<close>

theorem startProcessing_failures:
  "(batchId \<notin> jobs p \<longrightarrow>
      startProcessing ws t0 batchId p = (Some (NotFound batchId), p) \<and>
      (\<forall>s. tracker s = p \<longrightarrow> apply_event (Start batchId t0) s = s)) \<and>
   (\<forall>batch. jobs_get p batchId = Some batch \<and> jobConfig batch = None \<longrightarrow>
      startProcessing ws t0 batchId p = (Some ConfigMissing, p) \<and>
      (\<forall>s. tracker s = p \<longrightarrow> apply_event (Start batchId t0) s = s))"
  by (simp add: startProcessing_def startProcessing_begin_def jobs_get_def)

theorem startProcessing_failures_witness:
  "startProcessing (\<lambda>i. world_up) 1500 7 demo_processor = (Some (NotFound 7), demo_processor) \<and>
   apply_event (Start 7 1500) \<lparr> tracker = demo_processor, runs = [] \<rparr>
     = \<lparr> tracker = demo_processor, runs = [] \<rparr> \<and>
   startProcessing (\<lambda>i. world_up) 1500 0
       (update_batch 0 (\<lambda>b. b \<lparr> jobConfig := None \<rparr>) demo_processor)
     = (Some ConfigMissing, update_batch 0 (\<lambda>b. b \<lparr> jobConfig := None \<rparr>) demo_processor) \<and>
   apply_event (Start 0 1500)
       \<lparr> tracker = update_batch 0 (\<lambda>b. b \<lparr> jobConfig := None \<rparr>) demo_processor, runs = [] \<rparr>
     = \<lparr> tracker = update_batch 0 (\<lambda>b. b \<lparr> jobConfig := None \<rparr>) demo_processor, runs = [] \<rparr>"
  using startProcessing_failures [of 7 demo_processor "\<lambda>i. world_up" 1500]
    startProcessing_failures [of 0 "update_batch 0 (\<lambda>b. b \<lparr> jobConfig := None \<rparr>) demo_processor"
      "\<lambda>i. world_up" 1500]
  by (simp add: jobs_get_def update_batch_def demo_processor_def del: apply_event.simps)

end
